theory Spec2Isabelle
  imports Complex_Main "HOL-Library.Char_ord" "HOL-Library.List_Lexorder"
begin

section \<open>Values, payloads and the ledger stub\<close>

text \<open>
  The chaincode stores every document as the text of a JSON value and reads it back with
  \<^verbatim>\<open>JSON.parse\<close>. A JSON value is modelled by its abstract syntax. Numbers are exact
  rationals: the rounding of IEEE-754 doubles is not modelled. A number literal too large
  for a double parses to an infinity, which has its own constructor. The fields of an
  object are listed in JavaScript's property order; \<^verbatim>\<open>JSON.parse\<close> never produces the
  same name twice.
\<close>

datatype json =
    JNull
  | JBool bool
  | JNum rat
  | JInf bool
  | JStr string
  | JArr "json list"
  | JObj "(string \<times> json) list"

text \<open>
  A stored payload is either a text that \<^verbatim>\<open>JSON.parse\<close> accepts, identified with the
  value it parses to, or a byte string that it rejects. The empty buffer is \<open>Raw []\<close>.
\<close>

datatype bytes = Json json | Raw string

datatype error =
    KeyDoesNotExist string
  | NoDocType
  | InvalidSpendAmount
  | MissingSpendId
  | NgoDoesNotExist
  | InsufficientFunds rat rat
  | LoopSpendAmountInvalid rat
  | NumberOfDonationsInvalid nat
  | SpendPerDonationInvalid rat
  | SpendAlreadyExists string
  | SyntaxError
  | TypeError
  | Unmodelled

text \<open>
  The stub of one transaction: the committed world state it reads, the transaction
  identifier, and the \<^verbatim>\<open>putState\<close> calls issued so far, in order. Reads see the
  committed state only.
\<close>

record stub =
  world :: "(string \<times> bytes) list"
  txid :: string
  writes :: "(string \<times> bytes) list"

definition getState :: "stub \<Rightarrow> string \<Rightarrow> bytes" where
  "getState st key = (case map_of (world st) key of None \<Rightarrow> Raw [] | Some b \<Rightarrow> b)"

definition putState :: "stub \<Rightarrow> string \<Rightarrow> bytes \<Rightarrow> stub" where
  "putState st key b = st\<lparr>writes := writes st @ [(key, b)]\<rparr>"

definition bytes_empty :: "bytes \<Rightarrow> bool" where
  "bytes_empty b = (b = Raw [])"

subsection \<open>queryByKey\<close>

definition queryByKey :: "stub \<Rightarrow> string \<Rightarrow> error + bytes" where
  "queryByKey st key =
     (let resultAsBytes = getState st key
      in if bytes_empty resultAsBytes then Inl (KeyDoesNotExist key)
         else Inr resultAsBytes)"

subsection \<open>JavaScript operators on parsed values\<close>

text \<open>Truthiness, as tested by \<^verbatim>\<open>&&\<close>, \<^verbatim>\<open>!\<close> and \<^verbatim>\<open>if\<close>.\<close>

fun truthy :: "json \<Rightarrow> bool" where
  "truthy JNull = False"
| "truthy (JBool b) = b"
| "truthy (JNum r) = (r \<noteq> 0)"
| "truthy (JInf b) = True"
| "truthy (JStr s) = (s \<noteq> [])"
| "truthy (JArr xs) = True"
| "truthy (JObj fs) = True"

text \<open>
  Property access \<^verbatim>\<open>v[k]\<close>: a \<^verbatim>\<open>TypeError\<close> on \<^verbatim>\<open>null\<close>, the own data property
  of an object, \<^verbatim>\<open>undefined\<close> (\<open>None\<close>) otherwise. Properties inherited from a
  prototype and the index and length properties of strings and arrays are not modelled.
\<close>

fun js_prop :: "json \<Rightarrow> string \<Rightarrow> error + json option" where
  "js_prop JNull k = Inl TypeError"
| "js_prop (JObj fs) k = Inr (map_of fs k)"
| "js_prop v k = Inr None"

text \<open>
  Loose equality \<^verbatim>\<open>a == b\<close> of two parsed values. Values of one primitive type are
  compared by value; \<^verbatim>\<open>null\<close> equals only \<^verbatim>\<open>null\<close>; two separately parsed objects
  or arrays are never the same object. The remaining cases convert one operand to a
  number or a string first and are not modelled (\<open>None\<close>).
\<close>

fun loose_eq :: "json \<Rightarrow> json \<Rightarrow> bool option" where
  "loose_eq JNull b = Some (b = JNull)"
| "loose_eq a JNull = Some False"
| "loose_eq (JStr a) (JStr b) = Some (a = b)"
| "loose_eq (JNum a) (JNum b) = Some (a = b)"
| "loose_eq (JInf a) (JInf b) = Some (a = b)"
| "loose_eq (JNum a) (JInf b) = Some False"
| "loose_eq (JInf a) (JNum b) = Some False"
| "loose_eq (JBool a) (JBool b) = Some (a = b)"
| "loose_eq (JObj a) (JObj b) = Some False"
| "loose_eq (JObj a) (JArr b) = Some False"
| "loose_eq (JArr a) (JObj b) = Some False"
| "loose_eq (JArr a) (JArr b) = Some False"
| "loose_eq a b = None"

text \<open>
  \<^verbatim>\<open>JSON.stringify\<close> writes an infinity as \<^verbatim>\<open>null\<close> and keeps everything else;
  \<^verbatim>\<open>JSON.parse\<close> fails on a payload that is not JSON.
\<close>

primrec norm :: "json \<Rightarrow> json" where
  "norm JNull = JNull"
| "norm (JBool b) = JBool b"
| "norm (JNum r) = JNum r"
| "norm (JInf b) = JNull"
| "norm (JStr s) = JStr s"
| "norm (JArr xs) = JArr (map norm xs)"
| "norm (JObj fs) = JObj (map (map_prod id norm) fs)"

definition stringify :: "json \<Rightarrow> bytes" where
  "stringify j = Json (norm j)"

fun parse :: "bytes \<Rightarrow> json option" where
  "parse (Json j) = Some j"
| "parse (Raw s) = None"

text \<open>
  Lines 90 to 96: the record of a scanned entry is the parsed payload, or the payload's
  text when parsing throws.
\<close>

fun parse_or_text :: "bytes \<Rightarrow> json" where
  "parse_or_text (Json j) = j"
| "parse_or_text (Raw s) = JStr s"

subsection \<open>Range scan\<close>

text \<open>
  \<^verbatim>\<open>getStateByRange(startKey, endKey)\<close> yields the entries of the committed state with
  \<open>startKey \<le> key < endKey\<close> in ascending byte order of the keys.
\<close>

definition getStateByRange :: "stub \<Rightarrow> string \<Rightarrow> string \<Rightarrow> (string \<times> bytes) list" where
  "getStateByRange st startKey endKey =
     sort_key fst (remdups (filter
       (\<lambda>(k, v). startKey \<le> k \<and> k < endKey \<and> map_of (world st) k = Some v) (world st)))"

subsection \<open>queryByString\<close>

text \<open>
  The \<^verbatim>\<open>for (var key in jsonRecord)\<close> loop of lines 108 to 121, for one scanned entry
  \<open>jsonRes = (Key, Record)\<close>: every selector field other than \<open>docType\<close> whose value the
  record matches pushes the entry once more.
\<close>

fun for_keys :: "(string \<times> json) list \<Rightarrow> (string \<times> json) list \<Rightarrow> string \<times> json \<Rightarrow>
    (string \<times> json) list \<Rightarrow> error + (string \<times> json) list" where
  "for_keys jsonRecord [] jsonRes allResults = Inr allResults"
| "for_keys jsonRecord ((key, v) # rest) jsonRes allResults =
     (if map_of jsonRecord ''hasOwnProperty'' \<noteq> None then Inl TypeError
      else if key = ''docType'' then for_keys jsonRecord rest jsonRes allResults
      else case js_prop (snd jsonRes) key of
             Inl e \<Rightarrow> Inl e
           | Inr None \<Rightarrow> for_keys jsonRecord rest jsonRes allResults
           | Inr (Some f) \<Rightarrow>
               if \<not> truthy f then for_keys jsonRecord rest jsonRes allResults
               else (case loose_eq f v of
                       None \<Rightarrow> Inl Unmodelled
                     | Some False \<Rightarrow> for_keys jsonRecord rest jsonRes allResults
                     | Some True \<Rightarrow> for_keys jsonRecord rest jsonRes (allResults @ [jsonRes])))"

text \<open>The \<^verbatim>\<open>while (true)\<close> loop over the iterator, lines 82 to 132.\<close>

fun scan_loop :: "(string \<times> json) list \<Rightarrow> (string \<times> bytes) list \<Rightarrow>
    (string \<times> json) list \<Rightarrow> error + (string \<times> json) list" where
  "scan_loop jsonRecord [] allResults = Inr allResults"
| "scan_loop jsonRecord ((k, b) # iterator) allResults =
     (if bytes_empty b then scan_loop jsonRecord iterator allResults
      else
        let jsonRes = (k, parse_or_text b)
        in if length jsonRecord = 1 then scan_loop jsonRecord iterator (allResults @ [jsonRes])
           else (case for_keys jsonRecord jsonRecord jsonRes allResults of
                   Inl e \<Rightarrow> Inl e
                 | Inr allResults' \<Rightarrow> scan_loop jsonRecord iterator allResults'))"

text \<open>
  \<open>query_records\<close> is \<^verbatim>\<open>queryByString\<close> up to its last line, on the parsed query
  string; \<open>queryByString\<close> serialises the result as the array of \<^verbatim>\<open>{Key, Record}\<close>
  objects. A \<open>docType\<close> that is not a string would be converted to one by \<^verbatim>\<open>+\<close>,
  which is not modelled.
\<close>

definition query_records :: "stub \<Rightarrow> json \<Rightarrow> error + (string \<times> json) list" where
  "query_records st jsonQueryString =
     (case js_prop jsonQueryString ''selector'' of
        Inl e \<Rightarrow> Inl e
      | Inr None \<Rightarrow> Inl NoDocType
      | Inr (Some selector) \<Rightarrow>
          if \<not> truthy selector then Inl NoDocType
          else (case selector of
                  JObj jsonRecord \<Rightarrow>
                    (case map_of jsonRecord ''docType'' of
                       None \<Rightarrow> Inl NoDocType
                     | Some d \<Rightarrow>
                         if \<not> truthy d then Inl NoDocType
                         else (case d of
                                 JStr docType \<Rightarrow>
                                   scan_loop jsonRecord
                                     (getStateByRange st (docType @ ''0'') (docType @ ''z'')) []
                               | _ \<Rightarrow> Inl Unmodelled))
                | _ \<Rightarrow> Inl NoDocType))"

definition jsonRes_obj :: "string \<times> json \<Rightarrow> json" where
  "jsonRes_obj r = JObj [(''Key'', JStr (fst r)), (''Record'', snd r)]"

definition queryByString :: "stub \<Rightarrow> json \<Rightarrow> error + bytes" where
  "queryByString st jsonQueryString =
     (case query_records st jsonQueryString of
        Inl e \<Rightarrow> Inl e
      | Inr allResults \<Rightarrow> Inr (stringify (JArr (map jsonRes_obj allResults))))"

section \<open>allocateSpend\<close>

subsection \<open>The two maps\<close>

text \<open>
  A JavaScript \<^verbatim>\<open>Map\<close> iterates in insertion order, and \<^verbatim>\<open>set\<close> on a key that is
  present keeps the key's place.
\<close>

fun map_set :: "('k \<times> 'v) list \<Rightarrow> 'k \<Rightarrow> 'v \<Rightarrow> ('k \<times> 'v) list" where
  "map_set [] k v = [(k, v)]"
| "map_set ((k', v') # m) k v = (if k' = k then (k, v) # m else (k', v') # map_set m k v)"

text \<open>
  Lines 190 to 197. \<open>donationMap\<close> keeps the whole donation entry in the source; only
  its \<open>donationAmount\<close> is read afterwards, so the model keeps that. An amount that is
  not a finite number or an id that is not a string is outside the model.
\<close>

definition donation_fields :: "json \<Rightarrow> error + string \<times> rat" where
  "donation_fields donation =
     (case js_prop donation ''Record'' of
        Inl e \<Rightarrow> Inl e
      | Inr None \<Rightarrow> Inl TypeError
      | Inr (Some r) \<Rightarrow>
          (case js_prop r ''donationAmount'' of
             Inl e \<Rightarrow> Inl e
           | Inr (Some (JNum donationAmount)) \<Rightarrow>
               (case js_prop r ''donationId'' of
                  Inl e \<Rightarrow> Inl e
                | Inr (Some (JStr donationId)) \<Rightarrow> Inr (donationId, donationAmount)
                | Inr _ \<Rightarrow> Inl Unmodelled)
           | Inr _ \<Rightarrow> Inl Unmodelled))"

fun donations_loop :: "json list \<Rightarrow> rat \<Rightarrow> (string \<times> rat) list \<Rightarrow>
    error + rat \<times> (string \<times> rat) list" where
  "donations_loop [] totalDonations donationMap = Inr (totalDonations, donationMap)"
| "donations_loop (donation # rest) totalDonations donationMap =
     (case donation_fields donation of
        Inl e \<Rightarrow> Inl e
      | Inr (donationId, donationAmount) \<Rightarrow>
          donations_loop rest (totalDonations + donationAmount)
            (map_set donationMap donationId donationAmount))"

text \<open>Lines 209 to 223, with the same limits on the fields read.\<close>

definition allocation_fields :: "json \<Rightarrow> error + string \<times> rat" where
  "allocation_fields entry =
     (case js_prop entry ''Record'' of
        Inl e \<Rightarrow> Inl e
      | Inr None \<Rightarrow> Inl TypeError
      | Inr (Some spendAllocation) \<Rightarrow>
          (case js_prop spendAllocation ''spendAllocationAmount'' of
             Inl e \<Rightarrow> Inl e
           | Inr (Some (JNum amount)) \<Rightarrow>
               (case js_prop spendAllocation ''donationId'' of
                  Inl e \<Rightarrow> Inl e
                | Inr (Some (JStr donationId)) \<Rightarrow> Inr (donationId, amount)
                | Inr _ \<Rightarrow> Inl Unmodelled)
           | Inr _ \<Rightarrow> Inl Unmodelled))"

definition add_spend :: "(string \<times> rat) list \<Rightarrow> string \<Rightarrow> rat \<Rightarrow> (string \<times> rat) list" where
  "add_spend donationSpendMap donationId amount =
     (case map_of donationSpendMap donationId of
        Some spendAmt \<Rightarrow> map_set donationSpendMap donationId (spendAmt + amount)
      | None \<Rightarrow> map_set donationSpendMap donationId amount)"

fun spend_loop :: "json list \<Rightarrow> rat \<Rightarrow> (string \<times> rat) list \<Rightarrow>
    error + rat \<times> (string \<times> rat) list" where
  "spend_loop [] totalSpend donationSpendMap = Inr (totalSpend, donationSpendMap)"
| "spend_loop (entry # rest) totalSpend donationSpendMap =
     (case allocation_fields entry of
        Inl e \<Rightarrow> Inl e
      | Inr (donationId, amount) \<Rightarrow>
          spend_loop rest (totalSpend + amount) (add_spend donationSpendMap donationId amount))"

subsection \<open>The query strings\<close>

text \<open>
  Lines 181 and 206 splice \<open>ngo\<close> between double quotes into the text of the query and
  \<^verbatim>\<open>queryByString\<close> parses that text. For a string without a double quote, a backslash
  or a control character the parse gives the selector below; other values of \<open>ngo\<close>
  are outside the model.
\<close>

definition plain_text :: "string \<Rightarrow> bool" where
  "plain_text s = list_all (\<lambda>c. c \<noteq> CHR 0x22 \<and> c \<noteq> CHR 0x5C \<and> (32::nat) \<le> of_char c) s"

definition ngo_query :: "string \<Rightarrow> string \<Rightarrow> json" where
  "ngo_query docType ngo =
     JObj [(''selector'', JObj [(''docType'', JStr docType), (''ngoRegistrationNumber'', JStr ngo)])]"

definition parsed_array :: "bytes \<Rightarrow> error + json list" where
  "parsed_array b = (case parse b of Some (JArr xs) \<Rightarrow> Inr xs | _ \<Rightarrow> Inl Unmodelled)"

subsection \<open>The allocation loop\<close>

fun digit :: "nat \<Rightarrow> char" where
  "digit n = ''0123456789'' ! (n mod 10)"

fun string_of_nat :: "nat \<Rightarrow> string" where
  "string_of_nat n = (if n < 10 then [digit n] else string_of_nat (n div 10) @ [digit n])"

declare string_of_nat.simps [simp del]

record alloc_state =
  spendAmount :: rat
  donationSpendMap :: "(string \<times> rat) list"
  recordCounter :: nat
  the_stub :: stub

definition opt_field :: "string \<Rightarrow> json option \<Rightarrow> (string \<times> json) list" where
  "opt_field k v = (case v of None \<Rightarrow> [] | Some j \<Rightarrow> [(k, j)])"

text \<open>
  Lines 358 to 370. \<^verbatim>\<open>JSON.stringify\<close> leaves out a property whose value is
  \<^verbatim>\<open>undefined\<close>, which is what a field missing from \<open>spend\<close> reads as.
\<close>

definition spendAllocationRecord :: "(string \<times> json) list \<Rightarrow> string \<Rightarrow> string \<Rightarrow> string \<Rightarrow> rat \<Rightarrow> json" where
  "spendAllocationRecord spend ngo spendAllocationId donationId amountAllocatedToDonation =
     JObj ([(''docType'', JStr ''spendAllocation''),
            (''spendAllocationId'', JStr spendAllocationId),
            (''spendAllocationAmount'', JNum amountAllocatedToDonation)]
           @ opt_field ''spendAllocationDate'' (map_of spend ''spendDate'')
           @ opt_field ''spendAllocationDescription'' (map_of spend ''spendDescription'')
           @ [(''donationId'', JStr donationId),
              (''ngoRegistrationNumber'', JStr ngo)]
           @ opt_field ''spendId'' (map_of spend ''spendId''))"

text \<open>Lines 358 to 388: one allocation record is written and the books are updated.\<close>

definition allocate :: "(string \<times> json) list \<Rightarrow> string \<Rightarrow> string \<Rightarrow> rat \<Rightarrow> alloc_state \<Rightarrow> alloc_state" where
  "allocate spend ngo donationId amountAllocatedToDonation s =
     (let spendAllocationId = txid (the_stub s) @ ''-'' @ string_of_nat (recordCounter s);
          key = ''spendAllocation'' @ spendAllocationId
      in s\<lparr>recordCounter := recordCounter s + 1,
            the_stub := putState (the_stub s) key
              (stringify (spendAllocationRecord spend ngo spendAllocationId donationId
                 amountAllocatedToDonation)),
            spendAmount := spendAmount s - amountAllocatedToDonation,
            donationSpendMap := add_spend (donationSpendMap s) donationId amountAllocatedToDonation\<rparr>)"

definition spent_for :: "(string \<times> rat) list \<Rightarrow> string \<Rightarrow> rat" where
  "spent_for spendMap donationId =
     (case map_of spendMap donationId of Some a \<Rightarrow> a | None \<Rightarrow> 0)"

text \<open>
  Lines 322 to 389, one pass over \<open>donationMap\<close>. The source also decrements
  \<open>numberOfDonations\<close> in this pass; line 277 resets it before it is read again, so the
  variable is not part of the state.
\<close>

fun allocate_round :: "(string \<times> json) list \<Rightarrow> string \<Rightarrow> rat \<Rightarrow> (string \<times> rat) list \<Rightarrow>
    alloc_state \<Rightarrow> alloc_state" where
  "allocate_round spend ngo spendPerDonation [] s = s"
| "allocate_round spend ngo spendPerDonation ((donationId, donationAmount) # rest) s =
     (let spendAmountForDonor = spent_for (donationSpendMap s) donationId;
          availableAmountForDonor = donationAmount - spendAmountForDonor
      in if availableAmountForDonor \<ge> spendPerDonation then
           allocate_round spend ngo spendPerDonation rest
             (allocate spend ngo donationId spendPerDonation s)
         else if availableAmountForDonor > 0 then
           allocate_round spend ngo spendPerDonation rest
             (allocate spend ngo donationId availableAmountForDonor s)
         else allocate_round spend ngo spendPerDonation rest s)"

text \<open>Lines 277 to 291: the donations that still have funds.\<close>

definition has_funds :: "(string \<times> rat) list \<Rightarrow> string \<times> rat \<Rightarrow> bool" where
  "has_funds spendMap donation =
     (let availableAmountForDonor = snd donation - spent_for spendMap (fst donation)
      in availableAmountForDonor > 0)"

definition count_available :: "(string \<times> rat) list \<Rightarrow> (string \<times> rat) list \<Rightarrow> nat" where
  "count_available donationMap spendMap = length (filter (has_funds spendMap) donationMap)"

text \<open>
  Each pass either uses up the whole amount or leaves at least one donation fewer with
  funds, which is why the \<^verbatim>\<open>while (true)\<close> loop of line 262 ends.
\<close>

lemma map_of_map_set: "map_of (map_set m k v) = (map_of m)(k \<mapsto> v)"
  by (induction m) auto

lemma spent_for_add_spend:
  "spent_for (add_spend m d a) d' = (if d' = d then spent_for m d + a else spent_for m d')"
  by (auto simp: spent_for_def add_spend_def map_of_map_set split: option.splits)

lemma allocate_fields:
  "spendAmount (allocate spend ngo d a s) = spendAmount s - a"
  "donationSpendMap (allocate spend ngo d a s) = add_spend (donationSpendMap s) d a"
  "recordCounter (allocate spend ngo d a s) = recordCounter s + 1"
  by (simp_all add: allocate_def Let_def)

lemma round_spent_mono:
  "0 < sh \<Longrightarrow> spent_for (donationSpendMap s) d
     \<le> spent_for (donationSpendMap (allocate_round spend ngo sh ds s)) d"
proof (induction ds arbitrary: s)
  case Nil
  then show ?case by simp
next
  case (Cons e ds)
  obtain i a where e: "e = (i, a)" by (cases e)
  let ?av = "a - spent_for (donationSpendMap s) i"
  show ?case
  proof (cases "sh \<le> ?av")
    case True
    have "spent_for (donationSpendMap s) d
        \<le> spent_for (donationSpendMap (allocate spend ngo i sh s)) d"
      using Cons.prems by (simp add: allocate_fields spent_for_add_spend)
    also have "\<dots> \<le> spent_for (donationSpendMap
        (allocate_round spend ngo sh ds (allocate spend ngo i sh s))) d"
      by (rule Cons.IH [OF Cons.prems])
    finally show ?thesis using True by (simp add: e)
  next
    case False
    show ?thesis
    proof (cases "0 < ?av")
      case True
      have "spent_for (donationSpendMap s) d
          \<le> spent_for (donationSpendMap (allocate spend ngo i ?av s)) d"
        using True by (simp add: allocate_fields spent_for_add_spend)
      also have "\<dots> \<le> spent_for (donationSpendMap
          (allocate_round spend ngo sh ds (allocate spend ngo i ?av s))) d"
        by (rule Cons.IH [OF Cons.prems])
      finally show ?thesis using True False by (simp add: e)
    next
      case False
      then show ?thesis using \<open>\<not> sh \<le> ?av\<close> Cons.IH [OF Cons.prems, of s] by (simp add: e)
    qed
  qed
qed

lemma filter_length_mono:
  "(\<And>x. x \<in> set xs \<Longrightarrow> Q x \<Longrightarrow> P x) \<Longrightarrow> length (filter Q xs) \<le> length (filter P xs)"
proof (induction xs)
  case Nil
  then show ?case by simp
next
  case (Cons y ys)
  then have "length (filter Q ys) \<le> length (filter P ys)" by simp
  then show ?case using Cons.prems [of y] by auto
qed

lemma filter_length_less:
  assumes "\<And>x. x \<in> set xs \<Longrightarrow> Q x \<Longrightarrow> P x" and "x \<in> set xs" and "P x" and "\<not> Q x"
  shows "length (filter Q xs) < length (filter P xs)"
  using assms
proof (induction xs)
  case Nil
  then show ?case by simp
next
  case (Cons y ys)
  have le: "length (filter Q ys) \<le> length (filter P ys)"
    using Cons.prems(1) by (intro filter_length_mono) auto
  show ?case
  proof (cases "x = y")
    case True
    then show ?thesis using Cons.prems le by auto
  next
    case False
    then have "length (filter Q ys) < length (filter P ys)"
      using Cons by auto
    then show ?thesis using Cons.prems(1) [of y] by auto
  qed
qed

lemma filter_length_eq_or_witness:
  assumes "\<And>x. x \<in> set xs \<Longrightarrow> Q x \<Longrightarrow> P x"
  shows "length (filter Q xs) = length (filter P xs) \<or> (\<exists>x \<in> set xs. P x \<and> \<not> Q x)"
proof (cases "\<exists>x \<in> set xs. P x \<and> \<not> Q x")
  case True
  then show ?thesis by simp
next
  case False
  then have "filter Q xs = filter P xs"
    using assms by (intro filter_cong) auto
  then show ?thesis by simp
qed



lemma count_available_has_funds:
  "count_available dm m = length (filter (has_funds m) dm)"
  by (simp add: count_available_def)

lemma has_funds_round_mono:
  "0 < sh \<Longrightarrow> has_funds (donationSpendMap (allocate_round spend ngo sh ds s)) e
     \<Longrightarrow> has_funds (donationSpendMap s) e"
  using round_spent_mono [of sh s "fst e" spend ngo ds] by (simp add: has_funds_def)

lemma has_funds_allocate_mono:
  "0 < a \<Longrightarrow> has_funds (donationSpendMap (allocate spend ngo i a s)) e
     \<Longrightarrow> has_funds (donationSpendMap s) e"
  by (auto simp: has_funds_def allocate_fields spent_for_add_spend split: if_splits)

lemma round_progress:
  assumes "0 < sh"
  shows "spendAmount (allocate_round spend ngo sh ds s)
           = spendAmount s - sh * of_nat (count_available ds (donationSpendMap s))
       \<or> (\<exists>e \<in> set ds. has_funds (donationSpendMap s) e
             \<and> \<not> has_funds (donationSpendMap (allocate_round spend ngo sh ds s)) e)"
proof (induction ds arbitrary: s)
  case Nil
  then show ?case by (simp add: count_available_def)
next
  case (Cons e ds)
  obtain i a where e: "e = (i, a)" by (cases e)
  let ?m = "donationSpendMap s"
  let ?av = "a - spent_for ?m i"
  show ?case
  proof (cases "sh \<le> ?av")
    case True
    let ?s1 = "allocate spend ngo i sh s"
    let ?s' = "allocate_round spend ngo sh ds ?s1"
    have s': "allocate_round spend ngo sh (e # ds) s = ?s'"
      using True by (simp add: e)
    have hf: "has_funds ?m e"
      using True assms by (simp add: has_funds_def e)
    have mono1: "\<And>x. has_funds (donationSpendMap ?s1) x \<Longrightarrow> has_funds ?m x"
      using has_funds_allocate_mono [OF assms] by blast
    from Cons.IH [of ?s1]
    consider (exact) "spendAmount ?s' = spendAmount ?s1
                 - sh * of_nat (count_available ds (donationSpendMap ?s1))"
      | (out) x where "x \<in> set ds" "has_funds (donationSpendMap ?s1) x"
                 "\<not> has_funds (donationSpendMap ?s') x"
      by blast
    then show ?thesis
    proof cases
      case exact
      from filter_length_eq_or_witness [of ds "has_funds (donationSpendMap ?s1)" "has_funds ?m"]
      consider (same) "count_available ds (donationSpendMap ?s1) = count_available ds ?m"
        | (less) x where "x \<in> set ds" "has_funds ?m x" "\<not> has_funds (donationSpendMap ?s1) x"
        using mono1 by (auto simp: count_available_has_funds)
      then show ?thesis
      proof cases
        case same
        have "count_available (e # ds) ?m = Suc (count_available ds ?m)"
          using hf by (simp add: count_available_has_funds)
        then have "spendAmount ?s' = spendAmount s - sh * of_nat (count_available (e # ds) ?m)"
          using exact same by (simp add: allocate_fields algebra_simps)
        then show ?thesis unfolding s' by blast
      next
        case less
        have "\<not> has_funds (donationSpendMap ?s') x"
          using less(3) has_funds_round_mono [OF assms] by blast
        then show ?thesis unfolding s' using less(1,2) by auto
      qed
    next
      case out
      then show ?thesis unfolding s' using mono1 [OF out(2)] by auto
    qed
  next
    case False
    show ?thesis
    proof (cases "0 < ?av")
      case True
      let ?s1 = "allocate spend ngo i ?av s"
      let ?s' = "allocate_round spend ngo sh ds ?s1"
      have s': "allocate_round spend ngo sh (e # ds) s = ?s'"
        using True False by (simp add: e)
      have hf: "has_funds ?m e"
        using True by (simp add: has_funds_def e)
      have "\<not> has_funds (donationSpendMap ?s1) e"
        by (simp add: has_funds_def e allocate_fields spent_for_add_spend)
      then have "\<not> has_funds (donationSpendMap ?s') e"
        using has_funds_round_mono [OF assms] by blast
      then show ?thesis unfolding s' using hf by auto
    next
      case nofunds: False
      have s': "allocate_round spend ngo sh (e # ds) s = allocate_round spend ngo sh ds s"
        using False nofunds by (simp add: e)
      have "\<not> has_funds ?m e"
        using nofunds by (simp add: has_funds_def e)
      then have "count_available (e # ds) ?m = count_available ds ?m"
        by (simp add: count_available_has_funds)
      then show ?thesis unfolding s' using Cons.IH [of s] by auto
    qed
  qed
qed

lemma round_decreases:
  assumes "0 < spendAmount s" and "0 < count_available dm (donationSpendMap s)"
  defines "sh \<equiv> spendAmount s / of_nat (count_available dm (donationSpendMap s))"
  shows "spendAmount (allocate_round spend ngo sh dm s) \<le> 0
       \<or> count_available dm (donationSpendMap (allocate_round spend ngo sh dm s))
           < count_available dm (donationSpendMap s)"
proof -
  have sh: "0 < sh" using assms by (simp add: sh_def)
  from round_progress [OF sh, of spend ngo dm s]
  show ?thesis
  proof
    assume "spendAmount (allocate_round spend ngo sh dm s)
           = spendAmount s - sh * of_nat (count_available dm (donationSpendMap s))"
    then have "spendAmount (allocate_round spend ngo sh dm s) = 0"
      using assms(2) by (simp add: sh_def)
    then show ?thesis by simp
  next
    assume "\<exists>e \<in> set dm. has_funds (donationSpendMap s) e
             \<and> \<not> has_funds (donationSpendMap (allocate_round spend ngo sh dm s)) e"
    then obtain e where "e \<in> set dm" "has_funds (donationSpendMap s) e"
       "\<not> has_funds (donationSpendMap (allocate_round spend ngo sh dm s)) e" by blast
    then have "length (filter (has_funds (donationSpendMap (allocate_round spend ngo sh dm s))) dm)
         < length (filter (has_funds (donationSpendMap s)) dm)"
      using has_funds_round_mono [OF sh] by (intro filter_length_less [of dm _ _ e]) auto
    then show ?thesis by (simp add: count_available_has_funds)
  qed
qed

text \<open>
  Lines 262 to 390. The checks of lines 295 and 305 test that the value is not zero
  (a number \<^verbatim>\<open>NaN\<close> does not arise in exact arithmetic).
\<close>

function allocate_loop :: "(string \<times> json) list \<Rightarrow> string \<Rightarrow> (string \<times> rat) list \<Rightarrow>
    alloc_state \<Rightarrow> (error + unit) \<times> alloc_state" where
  "allocate_loop spend ngo donationMap s =
     (if spendAmount s \<le> 0 then (Inr (), s)
      else
        let numberOfDonations = count_available donationMap (donationSpendMap s)
        in if spendAmount s = 0 then (Inl (LoopSpendAmountInvalid (spendAmount s)), s)
           else if numberOfDonations = 0 then (Inl (NumberOfDonationsInvalid numberOfDonations), s)
           else
             let spendPerDonation = spendAmount s / of_nat numberOfDonations
             in if spendPerDonation = 0 then (Inl (SpendPerDonationInvalid spendPerDonation), s)
                else allocate_loop spend ngo donationMap
                       (allocate_round spend ngo spendPerDonation donationMap s))"
  by pat_completeness auto

termination
proof (relation "measure (\<lambda>(spend, ngo, donationMap, s).
    if spendAmount s \<le> 0 then 0 else Suc (count_available donationMap (donationSpendMap s)))")
  show "wf (measure (\<lambda>(spend, ngo, donationMap, s).
    if spendAmount s \<le> 0 then 0 else Suc (count_available donationMap (donationSpendMap s))))"
    by simp
next
  fix spend :: "(string \<times> json) list" and ngo :: string and donationMap
    and s :: alloc_state and x xa
  assume "\<not> spendAmount s \<le> 0" and x: "x = count_available donationMap (donationSpendMap s)"
    and "x \<noteq> 0" and xa: "xa = spendAmount s / rat_of_nat x"
  then have "spendAmount (allocate_round spend ngo xa donationMap s) \<le> 0
     \<or> count_available donationMap (donationSpendMap (allocate_round spend ngo xa donationMap s))
         < count_available donationMap (donationSpendMap s)"
    using round_decreases [of s donationMap spend ngo] by simp
  then show "((spend, ngo, donationMap, allocate_round spend ngo xa donationMap s),
              spend, ngo, donationMap, s)
      \<in> measure (\<lambda>(spend, ngo, donationMap, s).
          if spendAmount s \<le> 0 then 0 else Suc (count_available donationMap (donationSpendMap s)))"
    using \<open>\<not> spendAmount s \<le> 0\<close> by auto
qed

declare allocate_loop.simps [simp del]

text \<open>The three failures raised inside the loop, at lines 296, 299 and 306.\<close>

fun loop_failure :: "error \<Rightarrow> bool" where
  "loop_failure (LoopSpendAmountInvalid a) = True"
| "loop_failure (NumberOfDonationsInvalid n) = True"
| "loop_failure (SpendPerDonationInvalid a) = True"
| "loop_failure e = False"

subsection \<open>allocateSpend\<close>

definition load_donations :: "stub \<Rightarrow> string \<Rightarrow> error + rat \<times> (string \<times> rat) list" where
  "load_donations st ngo =
     (case queryByString st (ngo_query ''donation'' ngo) of
        Inl e \<Rightarrow> Inl e
      | Inr donationsForNGO \<Rightarrow>
          (case parsed_array donationsForNGO of
             Inl e \<Rightarrow> Inl e
           | Inr ds \<Rightarrow> donations_loop ds 0 []))"

definition load_spend :: "stub \<Rightarrow> string \<Rightarrow> error + rat \<times> (string \<times> rat) list" where
  "load_spend st ngo =
     (case queryByString st (ngo_query ''spendAllocation'' ngo) of
        Inl e \<Rightarrow> Inl e
      | Inr spendAllocations \<Rightarrow>
          (case parsed_array spendAllocations of
             Inl e \<Rightarrow> Inl e
           | Inr xs \<Rightarrow> spend_loop xs 0 []))"

text \<open>
  Lines 250 to 390: the spend record is written, then the amount is shared out. The
  key \<^verbatim>\<open>'spend' + spend['spendId']\<close> is modelled for a string id.
\<close>

definition record_and_allocate :: "stub \<Rightarrow> (string \<times> json) list \<Rightarrow> string \<Rightarrow> string \<Rightarrow> rat \<Rightarrow>
    (string \<times> rat) list \<Rightarrow> (string \<times> rat) list \<Rightarrow> (error + unit) \<times> stub" where
  "record_and_allocate st spend ngo spendId amount donationMap spendMap =
     (let spend' = map_set spend ''docType'' (JStr ''spend'');
          key = ''spend'' @ spendId;
          st' = putState st key (stringify (JObj spend'));
          r = allocate_loop spend' ngo donationMap
                \<lparr>spendAmount = amount, donationSpendMap = spendMap,
                 recordCounter = 0, the_stub = st'\<rparr>
      in (fst r, the_stub (snd r)))"

text \<open>
  Lines 166 to 247, for a spend object whose amount has passed line 162, and then the
  part above. The key \<^verbatim>\<open>'ngo' + ngo\<close> is modelled for a string as well; other values
  would be converted to text by \<^verbatim>\<open>+\<close>.
\<close>

definition allocate_valid :: "stub \<Rightarrow> (string \<times> json) list \<Rightarrow> rat \<Rightarrow> (error + unit) \<times> stub" where
  "allocate_valid st spend amount =
     (case map_of spend ''spendId'' of
        None \<Rightarrow> (Inl MissingSpendId, st)
      | Some sid \<Rightarrow>
          if \<not> truthy sid then (Inl MissingSpendId, st)
          else (case map_of spend ''ngoRegistrationNumber'' of
             Some (JStr ngo) \<Rightarrow>
               (case queryByKey st (''ngo'' @ ngo) of
                  Inl e \<Rightarrow> (Inl e, st)
                | Inr ngoQuery \<Rightarrow>
                    if bytes_empty ngoQuery then (Inl NgoDoesNotExist, st)
                    else if \<not> plain_text ngo then (Inl Unmodelled, st)
                    else (case load_donations st ngo of
                       Inl e \<Rightarrow> (Inl e, st)
                     | Inr (totalDonations, donationMap) \<Rightarrow>
                         (case load_spend st ngo of
                            Inl e \<Rightarrow> (Inl e, st)
                          | Inr (totalSpend, spendMap) \<Rightarrow>
                              let totalAvailable = totalDonations - totalSpend
                              in if amount > totalAvailable
                                 then (Inl (InsufficientFunds amount totalAvailable), st)
                                 else (case sid of
                                    JStr spendId \<Rightarrow>
                                      record_and_allocate st spend ngo spendId amount
                                        donationMap spendMap
                                  | _ \<Rightarrow> (Inl Unmodelled, st)))))
           | _ \<Rightarrow> (Inl Unmodelled, st)))"

text \<open>
  Line 162: the amount must be truthy, of type number and finite. Building the message
  of the error reads \<^verbatim>\<open>spend['spendAmount']\<close> once more, a \<^verbatim>\<open>TypeError\<close> when
  \<open>spend\<close> is \<^verbatim>\<open>null\<close>.
\<close>

fun allocateSpend :: "stub \<Rightarrow> json \<Rightarrow> (error + unit) \<times> stub" where
  "allocateSpend st JNull = (Inl TypeError, st)"
| "allocateSpend st (JObj spend) =
     (case map_of spend ''spendAmount'' of
        Some (JNum amount) \<Rightarrow>
          if amount = 0 then (Inl InvalidSpendAmount, st) else allocate_valid st spend amount
      | _ \<Rightarrow> (Inl InvalidSpendAmount, st))"
| "allocateSpend st spend = (Inl InvalidSpendAmount, st)"

subsection \<open>createSpend\<close>

text \<open>
  Lines 1065 to 1093. \<open>args\<close> is the text of the request. The object \<open>json\<close> is shared
  with \<^verbatim>\<open>allocateSpend\<close>, which sets its \<open>docType\<close> once more before the object is
  written again. Assigning a property of a number, a string or a boolean throws in
  strict mode.
\<close>

definition createSpend :: "stub \<Rightarrow> bytes \<Rightarrow> (error + unit) \<times> stub" where
  "createSpend st args =
     (case parse args of
        None \<Rightarrow> (Inl SyntaxError, st)
      | Some JNull \<Rightarrow> (Inl TypeError, st)
      | Some (JObj obj) \<Rightarrow>
          (case (map_of obj ''spendId'', map_of obj ''ngoRegistrationNumber'') of
             (Some (JStr spendId), Some (JStr ngo)) \<Rightarrow>
               let key = ''spend'' @ spendId;
                   json = map_set obj ''docType'' (JStr ''spend'');
                   ngoKey = ''ngo'' @ ngo;
                   ngoQuery = getState st ngoKey
               in if bytes_empty ngoQuery then (Inl NgoDoesNotExist, st)
                  else
                    let spendQuery = getState st key
                    in if \<not> bytes_empty spendQuery then (Inl (SpendAlreadyExists spendId), st)
                       else (case allocateSpend st (JObj json) of
                               (Inl e, st') \<Rightarrow> (Inl e, st')
                             | (Inr u, st') \<Rightarrow>
                                 let json' = map_set json ''docType'' (JStr ''spend'')
                                 in (Inr (), putState st' key (stringify (JObj json'))))
           | _ \<Rightarrow> (Inl Unmodelled, st))
      | Some (JArr xs) \<Rightarrow> (Inl Unmodelled, st)
      | Some _ \<Rightarrow> (Inl TypeError, st))"

text \<open>
  When the transaction is accepted the ledger applies its writes in order, a later write
  to a key replacing an earlier one; the next transaction reads the result.
\<close>

definition commit :: "stub \<Rightarrow> (string \<times> bytes) list" where
  "commit st = rev (writes st) @ world st"

section \<open>What a transaction wrote\<close>

text \<open>
  A written or stored entry read as a SpendAllocation record: the donation it refers to
  and its amount.
\<close>

definition written_allocation :: "string \<times> bytes \<Rightarrow> (string \<times> rat) option" where
  "written_allocation w =
     (case parse (snd w) of
        Some (JObj r) \<Rightarrow>
          (case (map_of r ''docType'', map_of r ''donationId'', map_of r ''spendAllocationAmount'') of
             (Some (JStr t), Some (JStr donationId), Some (JNum amount)) \<Rightarrow>
               if t = ''spendAllocation'' then Some (donationId, amount) else None
           | _ \<Rightarrow> None)
      | _ \<Rightarrow> None)"

definition allocations_written :: "(string \<times> bytes) list \<Rightarrow> (string \<times> rat) list" where
  "allocations_written ws = List.map_filter written_allocation ws"

definition total_allocated :: "(string \<times> bytes) list \<Rightarrow> rat" where
  "total_allocated ws = sum_list (map snd (allocations_written ws))"

definition allocated_to :: "string \<Rightarrow> (string \<times> bytes) list \<Rightarrow> rat" where
  "allocated_to donationId ws =
     sum_list (map snd (filter (\<lambda>a. fst a = donationId) (allocations_written ws)))"

text \<open>
  The id that a written record carries, and the keys and ids that line 358 produces from
  the transaction identifier and the counter.
\<close>

definition allocation_id :: "bytes \<Rightarrow> string option" where
  "allocation_id b =
     (case parse b of
        Some (JObj r) \<Rightarrow> (case map_of r ''spendAllocationId'' of Some (JStr i) \<Rightarrow> Some i | _ \<Rightarrow> None)
      | _ \<Rightarrow> None)"

definition id_of :: "string \<Rightarrow> nat \<Rightarrow> string" where
  "id_of t n = t @ ''-'' @ string_of_nat n"

definition key_and_id :: "string \<times> bytes \<Rightarrow> string \<times> string option" where
  "key_and_id w = (fst w, allocation_id (snd w))"

definition expected_ids :: "string \<Rightarrow> nat \<Rightarrow> nat \<Rightarrow> (string \<times> string option) list" where
  "expected_ids t m n = map (\<lambda>i. (''spendAllocation'' @ id_of t i, Some (id_of t i))) [m..<n]"

text \<open>
  The stub of the next transaction, which reads what this one has committed.
\<close>

definition next_stub :: "stub \<Rightarrow> string \<Rightarrow> stub" where
  "next_stub st t = \<lparr>world = commit st, txid = t, writes = []\<rparr>"

section \<open>What a transaction reads\<close>




text \<open>
  Two ledgers on which \<open>allocateSpend\<close> reads the same: the NGO records and the scans
  of the two ranges.
\<close>

definition same_reads :: "stub \<Rightarrow> stub \<Rightarrow> bool" where
  "same_reads st1 st2 \<longleftrightarrow>
     (\<forall>ngo. getState st1 (''ngo'' @ ngo) = getState st2 (''ngo'' @ ngo))
     \<and> getStateByRange st1 ''donation0'' ''donationz'' = getStateByRange st2 ''donation0'' ''donationz''
     \<and> getStateByRange st1 ''spendAllocation0'' ''spendAllocationz''
         = getStateByRange st2 ''spendAllocation0'' ''spendAllocationz''"

text \<open>
  The donations and the allocations that lines 182 and 207 obtain for an NGO, as pairs
  of a donation id and an amount, in scan order.
\<close>

definition decoded :: "(json \<Rightarrow> error + string \<times> rat) \<Rightarrow> json list \<Rightarrow> (string \<times> rat) list" where
  "decoded f js = List.map_filter (\<lambda>j. case f j of Inr x \<Rightarrow> Some x | Inl e \<Rightarrow> None) js"

definition query_results :: "stub \<Rightarrow> string \<Rightarrow> string \<Rightarrow> json list" where
  "query_results st docType ngo =
     (case queryByString st (ngo_query docType ngo) of
        Inr b \<Rightarrow> (case parsed_array b of Inr js \<Rightarrow> js | Inl e \<Rightarrow> [])
      | Inl e \<Rightarrow> [])"

definition donations_read :: "stub \<Rightarrow> string \<Rightarrow> (string \<times> rat) list" where
  "donations_read st ngo = decoded donation_fields (query_results st ''donation'' ngo)"

definition allocations_read :: "stub \<Rightarrow> string \<Rightarrow> (string \<times> rat) list" where
  "allocations_read st ngo = decoded allocation_fields (query_results st ''spendAllocation'' ngo)"

section \<open>Quantities of the proofs\<close>

text \<open>
  Two loop states that differ at most in the committed state behind the stub.
\<close>

definition same_run :: "alloc_state \<Rightarrow> alloc_state \<Rightarrow> bool" where
  "same_run s1 s2 \<longleftrightarrow>
     spendAmount s1 = spendAmount s2 \<and> donationSpendMap s1 = donationSpendMap s2
     \<and> recordCounter s1 = recordCounter s2
     \<and> txid (the_stub s1) = txid (the_stub s2) \<and> writes (the_stub s1) = writes (the_stub s2)"


section \<open>Small ledgers\<close>

text \<open>
  Records as the chaincode stores them, and the spend of the source's doc comment.
\<close>

definition ngo_doc :: "string \<Rightarrow> bytes" where
  "ngo_doc ngo = Json (JObj [(''ngoRegistrationNumber'', JStr ngo), (''docType'', JStr ''ngo'')])"

definition donation_doc :: "string \<Rightarrow> rat \<Rightarrow> string \<Rightarrow> bytes" where
  "donation_doc donationId donationAmount ngo =
     Json (JObj [(''donationId'', JStr donationId), (''donationAmount'', JNum donationAmount),
                 (''donorUserName'', JStr ''edge''), (''ngoRegistrationNumber'', JStr ngo),
                 (''docType'', JStr ''donation'')])"

definition spend_request :: "string \<Rightarrow> rat \<Rightarrow> string \<Rightarrow> json" where
  "spend_request spendId amount ngo =
     JObj [(''ngoRegistrationNumber'', JStr ngo), (''spendId'', JStr spendId),
           (''spendDescription'', JStr ''Peter Pipers Poulty Portions for Pets''),
           (''spendAmount'', JNum amount)]"

text \<open>
  NGO \<open>N1\<close> with the donations \<open>D1\<close> of 30 and \<open>D2\<close> of 70; the same ledger
  with its entries in another order and a donor record added; the empty ledger.
\<close>

definition ledger_30_70 :: stub where
  "ledger_30_70 =
     \<lparr>world = [(''ngoN1'', ngo_doc ''N1''), (''donationD1'', donation_doc ''D1'' 30 ''N1''),
               (''donationD2'', donation_doc ''D2'' 70 ''N1'')],
      txid = ''c5b39e'', writes = []\<rparr>"

definition ledger_30_70_more :: stub where
  "ledger_30_70_more =
     \<lparr>world = [(''donationD2'', donation_doc ''D2'' 70 ''N1''),
               (''donoredge'', Json (JObj [(''donorUserName'', JStr ''edge''), (''docType'', JStr ''donor'')])),
               (''donationD1'', donation_doc ''D1'' 30 ''N1''),
               (''ngoN1'', ngo_doc ''N1'')],
      txid = ''c5b39e'', writes = []\<rparr>"

definition empty_ledger :: stub where
  "empty_ledger = \<lparr>world = [], txid = ''c5b39e'', writes = []\<rparr>"




text \<open>
  A spend whose id makes its key fall into the spendAllocation range, carrying the two
  fields that line 210 reads from an allocation; and the ledgers left by committing it
  on a ledger with one donation of 100.
\<close>

definition forged_spend :: "string \<Rightarrow> rat \<Rightarrow> json" where
  "forged_spend donationId amount =
     JObj [(''ngoRegistrationNumber'', JStr ''N1''), (''spendId'', JStr ''AllocationX''),
           (''spendAmount'', JNum 1), (''donationId'', JStr donationId),
           (''spendAllocationAmount'', JNum amount)]"

definition ledger_100 :: stub where
  "ledger_100 =
     \<lparr>world = [(''ngoN1'', ngo_doc ''N1''), (''donationD1'', donation_doc ''D1'' 100 ''N1'')],
      txid = ''c5b39e'', writes = []\<rparr>"


definition ledger_forged_D1 :: stub where
  "ledger_forged_D1 =
     next_stub (snd (allocateSpend ledger_100 (forged_spend ''D1'' (- 1000)))) ''7f21aa''"

section \<open>Properties of the model\<close>

subsection \<open>What one allocation writes\<close>

lemma map_of_norm_fields:
  "map_of (map (map_prod id norm) fs) k = map_option norm (map_of fs k)"
  by (induction fs) auto

lemma written_allocation_record:
  "written_allocation (key, stringify (spendAllocationRecord spend ngo sid d a)) = Some (d, a)"
  by (simp add: written_allocation_def stringify_def spendAllocationRecord_def opt_field_def
      split: option.split)

lemma allocate_stub:
  "world (the_stub (allocate spend ngo d a s)) = world (the_stub s)"
  "txid (the_stub (allocate spend ngo d a s)) = txid (the_stub s)"
  "writes (the_stub (allocate spend ngo d a s)) = writes (the_stub s) @
     [(''spendAllocation'' @ txid (the_stub s) @ ''-'' @ string_of_nat (recordCounter s),
       stringify (spendAllocationRecord spend ngo
         (txid (the_stub s) @ ''-'' @ string_of_nat (recordCounter s)) d a))]"
  by (simp_all add: allocate_def Let_def putState_def)

lemma allocations_written_append:
  "allocations_written (xs @ ys) = allocations_written xs @ allocations_written ys"
  by (simp add: allocations_written_def List.map_filter_def)

lemma allocations_written_allocate:
  "allocations_written (writes (the_stub (allocate spend ngo d a s)))
     = allocations_written (writes (the_stub s)) @ [(d, a)]"
  by (simp add: allocate_stub allocations_written_append)
     (simp add: allocations_written_def List.map_filter_def written_allocation_record)


subsection \<open>The amount still to allocate\<close>






subsection \<open>The stub is only appended to\<close>

lemma round_stub:
  "world (the_stub (allocate_round spend ngo sh ds s)) = world (the_stub s)"
  "txid (the_stub (allocate_round spend ngo sh ds s)) = txid (the_stub s)"
  by (induction ds arbitrary: s) (auto simp: Let_def allocate_stub)

lemma round_writes_extend:
  "\<exists>ws. writes (the_stub (allocate_round spend ngo sh ds s)) = writes (the_stub s) @ ws"
proof (induction ds arbitrary: s)
  case Nil
  then show ?case by simp
next
  case (Cons e ds)
  obtain i a where e: "e = (i, a)" by (cases e)
  have "\<exists>ws. writes (the_stub (allocate_round spend ngo sh ds (allocate spend ngo i x s)))
          = writes (the_stub s) @ ws" for x
    using Cons.IH [of "allocate spend ngo i x s"] by (auto simp: allocate_stub)
  then show ?case using Cons.IH [of s] by (simp add: e Let_def)
qed

lemma loop_stub:
  "world (the_stub (snd (allocate_loop spend ngo dm s))) = world (the_stub s)
   \<and> txid (the_stub (snd (allocate_loop spend ngo dm s))) = txid (the_stub s)
   \<and> (\<exists>ws. writes (the_stub (snd (allocate_loop spend ngo dm s))) = writes (the_stub s) @ ws)"
proof (induction spend ngo dm s rule: allocate_loop.induct)
  case (1 spend ngo dm s)
  show ?case
  proof (cases "spendAmount s \<le> 0 \<or> count_available dm (donationSpendMap s) = 0")
    case True
    then show ?thesis by (auto simp: allocate_loop.simps [of spend ngo dm s])
  next
    case False
    let ?n = "count_available dm (donationSpendMap s)"
    let ?s1 = "allocate_round spend ngo (spendAmount s / of_nat ?n) dm s"
    have unfold: "allocate_loop spend ngo dm s = allocate_loop spend ngo dm ?s1"
      using False by (simp add: allocate_loop.simps [of spend ngo dm s] Let_def)
    have IH: "world (the_stub (snd (allocate_loop spend ngo dm ?s1))) = world (the_stub ?s1)
       \<and> txid (the_stub (snd (allocate_loop spend ngo dm ?s1))) = txid (the_stub ?s1)
       \<and> (\<exists>ws. writes (the_stub (snd (allocate_loop spend ngo dm ?s1))) = writes (the_stub ?s1) @ ws)"
      using False by (intro "1.IH" [OF _ refl _ _ refl]) auto
    obtain ws1 where "writes (the_stub ?s1) = writes (the_stub s) @ ws1"
      using round_writes_extend by blast
    then show ?thesis using IH unfolding unfold by (auto simp: round_stub)
  qed
qed

subsection \<open>Errors before the loop\<close>

lemma js_prop_error: "js_prop v k = Inl e \<Longrightarrow> e = TypeError"
  by (cases v) auto

lemma for_keys_error:
  "for_keys sel ks r acc = Inl e \<Longrightarrow> \<not> loop_failure e"
proof (induction ks arbitrary: acc)
  case Nil
  then show ?case by simp
next
  case (Cons k ks)
  obtain key v where k: "k = (key, v)" by (cases k)
  show ?case
    using Cons.prems Cons.IH
    by (cases "snd r") (auto simp: k split: if_splits option.splits bool.splits)
qed

lemma scan_loop_error:
  "scan_loop sel it acc = Inl e \<Longrightarrow> \<not> loop_failure e"
proof (induction it arbitrary: acc)
  case Nil
  then show ?case by simp
next
  case (Cons x it)
  obtain k b where x: "x = (k, b)" by (cases x)
  show ?case
    using Cons.prems Cons.IH for_keys_error
    by (auto simp: x Let_def split: if_splits sum.splits)
qed

lemma queryByString_error:
  "queryByString st q = Inl e \<Longrightarrow> \<not> loop_failure e"
  using scan_loop_error
  by (cases q) (auto simp: queryByString_def query_records_def
      split: sum.splits option.splits if_splits json.splits)

lemma donations_loop_error:
  "donations_loop js t m = Inl e \<Longrightarrow> \<not> loop_failure e"
proof (induction js arbitrary: t m)
  case Nil
  then show ?case by simp
next
  case (Cons j js)
  have "donation_fields j = Inl e \<Longrightarrow> \<not> loop_failure e"
    by (cases j) (auto simp: donation_fields_def dest: js_prop_error
        split: sum.splits option.splits json.splits)
  then show ?case using Cons by (auto split: sum.splits)
qed

lemma spend_loop_error:
  "spend_loop js t m = Inl e \<Longrightarrow> \<not> loop_failure e"
proof (induction js arbitrary: t m)
  case Nil
  then show ?case by simp
next
  case (Cons j js)
  have "allocation_fields j = Inl e \<Longrightarrow> \<not> loop_failure e"
    by (cases j) (auto simp: allocation_fields_def dest: js_prop_error
        split: sum.splits option.splits json.splits)
  then show ?case using Cons by (auto split: sum.splits)
qed

lemma load_error:
  "load_donations st ngo = Inl e \<Longrightarrow> \<not> loop_failure e"
  "load_spend st ngo = Inl e \<Longrightarrow> \<not> loop_failure e"
  using queryByString_error donations_loop_error spend_loop_error
  by (auto simp: load_donations_def load_spend_def parsed_array_def
      split: sum.splits option.splits json.splits)

subsection \<open>The two ways a call can go\<close>

lemma allocate_valid_result:
  "(\<exists>e. allocate_valid st spend amount = (Inl e, st) \<and> \<not> loop_failure e)
   \<or> (\<exists>ngo spendId totalDonations donationMap totalSpend spendMap.
        map_of spend ''ngoRegistrationNumber'' = Some (JStr ngo)
      \<and> map_of spend ''spendId'' = Some (JStr spendId)
      \<and> getState st (''ngo'' @ ngo) \<noteq> Raw []
      \<and> load_donations st ngo = Inr (totalDonations, donationMap)
      \<and> load_spend st ngo = Inr (totalSpend, spendMap)
      \<and> amount \<le> totalDonations - totalSpend
      \<and> allocate_valid st spend amount =
          record_and_allocate st spend ngo spendId amount donationMap spendMap)"
  unfolding allocate_valid_def queryByKey_def bytes_empty_def
  using load_error
  by (auto simp: Let_def split: option.splits json.splits sum.splits prod.splits if_splits)

lemma allocateSpend_result:
  "(\<exists>e. allocateSpend st spend = (Inl e, st) \<and> \<not> loop_failure e)
   \<or> (\<exists>obj amount ngo spendId totalDonations donationMap totalSpend spendMap.
        spend = JObj obj
      \<and> map_of obj ''spendAmount'' = Some (JNum amount) \<and> amount \<noteq> 0
      \<and> map_of obj ''ngoRegistrationNumber'' = Some (JStr ngo)
      \<and> map_of obj ''spendId'' = Some (JStr spendId)
      \<and> getState st (''ngo'' @ ngo) \<noteq> Raw []
      \<and> load_donations st ngo = Inr (totalDonations, donationMap)
      \<and> load_spend st ngo = Inr (totalSpend, spendMap)
      \<and> amount \<le> totalDonations - totalSpend
      \<and> allocateSpend st spend =
          record_and_allocate st obj ngo spendId amount donationMap spendMap)"
proof (cases spend)
  case (JObj obj)
  show ?thesis
  proof (cases "\<exists>amount. map_of obj ''spendAmount'' = Some (JNum amount) \<and> amount \<noteq> 0")
    case True
    then obtain amount where a: "map_of obj ''spendAmount'' = Some (JNum amount)" "amount \<noteq> 0"
      by blast
    then have "allocateSpend st spend = allocate_valid st obj amount"
      by (simp add: JObj)
    then show ?thesis
      using allocate_valid_result [of st obj amount] a JObj by auto
  next
    case False
    then have "allocateSpend st spend = (Inl InvalidSpendAmount, st)"
      by (auto simp: JObj split: option.splits json.splits)
    then show ?thesis by auto
  qed
qed simp_all


lemma spend_doc_not_allocation:
  "written_allocation (key, stringify (JObj (map_set obj ''docType'' (JStr ''spend'')))) = None"
  by (simp add: written_allocation_def stringify_def map_of_norm_fields map_of_map_set
      split: option.split json.split)



subsection \<open>The spend record\<close>

lemma map_set_idem: "map_set (map_set m k v) k v = map_set m k v"
  by (induction m) auto

lemma record_and_allocate_writes:
  "\<exists>allocations. writes (snd (record_and_allocate st obj ngo spendId amount dm sm))
     = writes st @ (''spend'' @ spendId, stringify (JObj (map_set obj ''docType'' (JStr ''spend''))))
         # allocations"
proof -
  let ?doc = "stringify (JObj (map_set obj ''docType'' (JStr ''spend'')))"
  let ?s0 = "\<lparr>spendAmount = amount, donationSpendMap = sm, recordCounter = 0,
              the_stub = putState st (''spend'' @ spendId) ?doc\<rparr>"
  let ?r = "allocate_loop (map_set obj ''docType'' (JStr ''spend'')) ngo dm ?s0"
  obtain ws where "writes (the_stub (snd ?r)) = writes (the_stub ?s0) @ ws"
    using loop_stub [of "map_set obj ''docType'' (JStr ''spend'')" ngo dm ?s0] by blast
  then show ?thesis
    by (simp add: record_and_allocate_def Let_def putState_def)
qed

subsection \<open>Keys and ids of the allocations\<close>

lemma allocation_id_record:
  "allocation_id (stringify (spendAllocationRecord spend ngo i d a)) = Some i"
  by (simp add: allocation_id_def stringify_def spendAllocationRecord_def)

lemma expected_ids_snoc:
  "expected_ids t m n @ [(''spendAllocation'' @ id_of t n, Some (id_of t n))]
     = expected_ids t m (Suc n)" if "m \<le> n"
  using that by (simp add: expected_ids_def)

lemma round_ids:
  "\<exists>ws. writes (the_stub (allocate_round spend ngo sh ds s)) = writes (the_stub s) @ ws
     \<and> recordCounter (allocate_round spend ngo sh ds s) = recordCounter s + length ws
     \<and> map key_and_id ws
         = expected_ids (txid (the_stub s)) (recordCounter s) (recordCounter s + length ws)"
proof (induction ds arbitrary: s)
  case Nil
  then show ?case by (simp add: expected_ids_def)
next
  case (Cons e ds)
  obtain i a where e: "e = (i, a)" by (cases e)
  have step: "\<exists>ws. writes (the_stub (allocate_round spend ngo sh ds (allocate spend ngo i x s)))
         = writes (the_stub s) @ ws
     \<and> recordCounter (allocate_round spend ngo sh ds (allocate spend ngo i x s))
         = recordCounter s + length ws
     \<and> map key_and_id ws
         = expected_ids (txid (the_stub s)) (recordCounter s) (recordCounter s + length ws)" for x
  proof -
    let ?s1 = "allocate spend ngo i x s"
    let ?t = "txid (the_stub s)"
    let ?w = "(''spendAllocation'' @ id_of ?t (recordCounter s),
               stringify (spendAllocationRecord spend ngo (id_of ?t (recordCounter s)) i x))"
    obtain ws where ws:
      "writes (the_stub (allocate_round spend ngo sh ds ?s1)) = writes (the_stub ?s1) @ ws"
      "recordCounter (allocate_round spend ngo sh ds ?s1) = recordCounter ?s1 + length ws"
      "map key_and_id ws
         = expected_ids (txid (the_stub ?s1)) (recordCounter ?s1) (recordCounter ?s1 + length ws)"
      using Cons.IH [of ?s1] by blast
    have w1: "writes (the_stub ?s1) = writes (the_stub s) @ [?w]"
      by (simp add: allocate_stub id_of_def)
    have k: "key_and_id ?w = (''spendAllocation'' @ id_of ?t (recordCounter s),
                Some (id_of ?t (recordCounter s)))"
      by (simp add: key_and_id_def allocation_id_record)
    have "map key_and_id (?w # ws)
        = expected_ids ?t (recordCounter s) (recordCounter s + length (?w # ws))"
      using ws(3) k
      by (simp add: allocate_stub allocate_fields expected_ids_def upt_conv_Cons del: upt_Suc)
    moreover have "writes (the_stub (allocate_round spend ngo sh ds ?s1))
        = writes (the_stub s) @ (?w # ws)"
      using ws(1) w1 by simp
    moreover have "recordCounter (allocate_round spend ngo sh ds ?s1)
        = recordCounter s + length (?w # ws)"
      using ws(2) by (simp add: allocate_fields)
    ultimately show ?thesis by blast
  qed
  show ?case using step Cons.IH [of s] by (simp add: e Let_def)
qed

lemma expected_ids_append:
  "m \<le> n \<Longrightarrow> expected_ids t m n @ expected_ids t n (n + k) = expected_ids t m (n + k)"
  by (simp add: expected_ids_def flip: map_append upt_add_eq_append)

lemma loop_ids:
  "\<exists>ws. writes (the_stub (snd (allocate_loop spend ngo dm s))) = writes (the_stub s) @ ws
     \<and> map key_and_id ws
         = expected_ids (txid (the_stub s)) (recordCounter s) (recordCounter s + length ws)"
proof (induction spend ngo dm s rule: allocate_loop.induct)
  case (1 spend ngo dm s)
  show ?case
  proof (cases "spendAmount s \<le> 0 \<or> count_available dm (donationSpendMap s) = 0")
    case True
    then show ?thesis
      by (auto simp: allocate_loop.simps [of spend ngo dm s] expected_ids_def)
  next
    case False
    let ?n = "count_available dm (donationSpendMap s)"
    let ?s1 = "allocate_round spend ngo (spendAmount s / of_nat ?n) dm s"
    have unfold: "allocate_loop spend ngo dm s = allocate_loop spend ngo dm ?s1"
      using False by (simp add: allocate_loop.simps [of spend ngo dm s] Let_def)
    obtain ws1 where ws1: "writes (the_stub ?s1) = writes (the_stub s) @ ws1"
      "recordCounter ?s1 = recordCounter s + length ws1"
      "map key_and_id ws1
         = expected_ids (txid (the_stub s)) (recordCounter s) (recordCounter s + length ws1)"
      using round_ids [of spend ngo _ dm s] by blast
    have "\<exists>ws. writes (the_stub (snd (allocate_loop spend ngo dm ?s1))) = writes (the_stub ?s1) @ ws
       \<and> map key_and_id ws
         = expected_ids (txid (the_stub ?s1)) (recordCounter ?s1) (recordCounter ?s1 + length ws)"
      using False by (intro "1.IH" [OF _ refl _ _ refl]) auto
    then obtain ws2 where ws2:
      "writes (the_stub (snd (allocate_loop spend ngo dm ?s1))) = writes (the_stub ?s1) @ ws2"
      "map key_and_id ws2
         = expected_ids (txid (the_stub s)) (recordCounter s + length ws1)
             (recordCounter s + length ws1 + length ws2)"
      by (auto simp: round_stub ws1(2))
    have "map key_and_id (ws1 @ ws2)
        = expected_ids (txid (the_stub s)) (recordCounter s) (recordCounter s + length (ws1 @ ws2))"
      using ws1(3) ws2(2)
        expected_ids_append [of "recordCounter s" "recordCounter s + length ws1"
          "txid (the_stub s)" "length ws2"]
      by (simp add: add.assoc)
    moreover have "writes (the_stub (snd (allocate_loop spend ngo dm s)))
        = writes (the_stub s) @ (ws1 @ ws2)"
      unfolding unfold using ws1(1) ws2(1) by simp
    ultimately show ?thesis by blast
  qed
qed

subsection \<open>Two runs side by side\<close>

lemma same_run_allocate:
  "same_run s1 s2 \<Longrightarrow> same_run (allocate spend ngo d a s1) (allocate spend ngo d a s2)"
  by (simp add: same_run_def allocate_fields allocate_stub)

lemma same_run_round:
  "same_run s1 s2 \<Longrightarrow>
     same_run (allocate_round spend ngo sh ds s1) (allocate_round spend ngo sh ds s2)"
proof (induction ds arbitrary: s1 s2)
  case Nil
  then show ?case by simp
next
  case (Cons e ds)
  obtain i a where e: "e = (i, a)" by (cases e)
  have m: "donationSpendMap s1 = donationSpendMap s2"
    using Cons.prems by (simp add: same_run_def)
  show ?case
    using Cons.prems by (auto simp: e m Let_def intro!: Cons.IH same_run_allocate)
qed

lemma same_run_loop:
  "same_run s1 s2 \<Longrightarrow>
     fst (allocate_loop spend ngo dm s1) = fst (allocate_loop spend ngo dm s2)
     \<and> same_run (snd (allocate_loop spend ngo dm s1)) (snd (allocate_loop spend ngo dm s2))"
proof (induction spend ngo dm s1 arbitrary: s2 rule: allocate_loop.induct)
  case (1 spend ngo dm s1)
  have eqs: "spendAmount s1 = spendAmount s2" "donationSpendMap s1 = donationSpendMap s2"
    using "1.prems" by (simp_all add: same_run_def)
  show ?case
  proof (cases "spendAmount s1 \<le> 0 \<or> count_available dm (donationSpendMap s1) = 0")
    case True
    then show ?thesis
      using "1.prems" eqs
      by (auto simp: allocate_loop.simps [of spend ngo dm s1] allocate_loop.simps [of spend ngo dm s2])
  next
    case False
    let ?sh = "spendAmount s1 / of_nat (count_available dm (donationSpendMap s1))"
    have u1: "allocate_loop spend ngo dm s1
        = allocate_loop spend ngo dm (allocate_round spend ngo ?sh dm s1)"
      using False by (simp add: allocate_loop.simps [of spend ngo dm s1] Let_def)
    have u2: "allocate_loop spend ngo dm s2
        = allocate_loop spend ngo dm (allocate_round spend ngo ?sh dm s2)"
      using False eqs by (simp add: allocate_loop.simps [of spend ngo dm s2] Let_def)
    show ?thesis
      unfolding u1 u2 using False
      by (intro "1.IH" [OF _ refl _ _ refl] same_run_round "1.prems") auto
  qed
qed

lemma same_reads_loads:
  assumes "same_reads st1 st2"
  shows "queryByKey st1 (''ngo'' @ ngo) = queryByKey st2 (''ngo'' @ ngo)"
    and "load_donations st1 ngo = load_donations st2 ngo"
    and "load_spend st1 ngo = load_spend st2 ngo"
  using assms
  by (simp_all add: same_reads_def queryByKey_def load_donations_def load_spend_def
      queryByString_def query_records_def ngo_query_def)

lemma same_run_record_and_allocate:
  assumes "txid st1 = txid st2" and "writes st1 = writes st2"
  shows "fst (record_and_allocate st1 obj ngo spendId amount dm sm)
           = fst (record_and_allocate st2 obj ngo spendId amount dm sm)
       \<and> writes (snd (record_and_allocate st1 obj ngo spendId amount dm sm))
           = writes (snd (record_and_allocate st2 obj ngo spendId amount dm sm))"
proof -
  let ?doc = "stringify (JObj (map_set obj ''docType'' (JStr ''spend'')))"
  let ?s = "\<lambda>st. \<lparr>spendAmount = amount, donationSpendMap = sm, recordCounter = 0,
              the_stub = putState st (''spend'' @ spendId) ?doc\<rparr>"
  have "same_run (?s st1) (?s st2)"
    using assms by (simp add: same_run_def putState_def)
  from same_run_loop [OF this, of "map_set obj ''docType'' (JStr ''spend'')" ngo dm]
  show ?thesis by (simp add: record_and_allocate_def Let_def same_run_def)
qed

lemma same_run_allocate_valid:
  assumes "txid st1 = txid st2" and "writes st1 = writes st2" and "same_reads st1 st2"
  shows "fst (allocate_valid st1 obj amount) = fst (allocate_valid st2 obj amount)
       \<and> writes (snd (allocate_valid st1 obj amount)) = writes (snd (allocate_valid st2 obj amount))"
  unfolding allocate_valid_def same_reads_loads [OF assms(3)]
  using assms(2) same_run_record_and_allocate [OF assms(1,2)]
  by (auto simp: Let_def split: option.splits json.splits sum.splits prod.splits)

lemma record_and_allocate_ids:
  "\<exists>ws. writes (snd (record_and_allocate st obj ngo spendId amount dm sm))
       = writes st @ (''spend'' @ spendId, stringify (JObj (map_set obj ''docType'' (JStr ''spend''))))
           # ws
     \<and> map key_and_id ws = expected_ids (txid st) 0 (length ws)"
proof -
  let ?doc = "stringify (JObj (map_set obj ''docType'' (JStr ''spend'')))"
  let ?s0 = "\<lparr>spendAmount = amount, donationSpendMap = sm, recordCounter = 0,
              the_stub = putState st (''spend'' @ spendId) ?doc\<rparr>"
  obtain ws where
    "writes (the_stub (snd (allocate_loop (map_set obj ''docType'' (JStr ''spend'')) ngo dm ?s0)))
       = writes (the_stub ?s0) @ ws"
    "map key_and_id ws
       = expected_ids (txid (the_stub ?s0)) (recordCounter ?s0) (recordCounter ?s0 + length ws)"
    using loop_ids [of "map_set obj ''docType'' (JStr ''spend'')" ngo dm ?s0] by blast
  then show ?thesis
    by (simp add: record_and_allocate_def Let_def putState_def)
qed

lemma same_reads_ledgers: "same_reads ledger_30_70 ledger_30_70_more"
proof -
  have "getState ledger_30_70 (''ngo'' @ ngo) = getState ledger_30_70_more (''ngo'' @ ngo)" for ngo
    by (simp add: getState_def ledger_30_70_def ledger_30_70_more_def)
  moreover have "getStateByRange ledger_30_70 ''donation0'' ''donationz''
      = getStateByRange ledger_30_70_more ''donation0'' ''donationz''"
    by code_simp
  moreover have "getStateByRange ledger_30_70 ''spendAllocation0'' ''spendAllocationz''
      = getStateByRange ledger_30_70_more ''spendAllocation0'' ''spendAllocationz''"
    by code_simp
  ultimately show ?thesis by (simp add: same_reads_def)
qed

subsection \<open>The scan of a query\<close>





subsection \<open>Funds that the loop can draw on\<close>







subsection \<open>What the two loading loops compute\<close>

lemma decoded_Cons:
  "decoded f (j # js) = (case f j of Inr x \<Rightarrow> x # decoded f js | Inl e \<Rightarrow> decoded f js)"
  by (simp add: decoded_def List.map_filter_def split: sum.split)

lemma donations_loop_decoded:
  "donations_loop js t m = Inr (t', m') \<Longrightarrow>
     t' = t + sum_list (map snd (decoded donation_fields js))
     \<and> m' = fold (\<lambda>e m. map_set m (fst e) (snd e)) (decoded donation_fields js) m"
proof (induction js arbitrary: t m)
  case Nil
  then show ?case by (simp add: decoded_def List.map_filter_def)
next
  case (Cons j js)
  from Cons.prems obtain d a where f: "donation_fields j = Inr (d, a)"
    and rest: "donations_loop js (t + a) (map_set m d a) = Inr (t', m')"
    by (auto split: sum.splits)
  show ?case using Cons.IH [OF rest] by (simp add: decoded_Cons f)
qed

lemma map_set_absent: "k \<notin> fst ` set m \<Longrightarrow> map_set m k v = m @ [(k, v)]"
  by (induction m) auto

lemma fold_map_set_distinct:
  "distinct (map fst (m @ xs)) \<Longrightarrow> fold (\<lambda>e m. map_set m (fst e) (snd e)) xs m = m @ xs"
proof (induction xs arbitrary: m)
  case Nil
  then show ?case by simp
next
  case (Cons x xs)
  have "fst x \<notin> fst ` set m" using Cons.prems by auto
  then have "map_set m (fst x) (snd x) = m @ [x]" by (simp add: map_set_absent)
  then show ?case using Cons.IH [of "m @ [x]"] Cons.prems by simp
qed

lemma spend_loop_decoded:
  "spend_loop js t m = Inr (t', m') \<Longrightarrow>
     t' = t + sum_list (map snd (decoded allocation_fields js))
     \<and> (\<forall>d. spent_for m' d = spent_for m d
           + sum_list (map snd (filter (\<lambda>a. fst a = d) (decoded allocation_fields js))))"
proof (induction js arbitrary: t m)
  case Nil
  then show ?case by (simp add: decoded_def List.map_filter_def)
next
  case (Cons j js)
  from Cons.prems obtain d a where f: "allocation_fields j = Inr (d, a)"
    and rest: "spend_loop js (t + a) (add_spend m d a) = Inr (t', m')"
    by (auto split: sum.splits)
  show ?case using Cons.IH [OF rest] by (auto simp: decoded_Cons f spent_for_add_spend)
qed

lemma load_donations_read:
  assumes "load_donations st ngo = Inr (td, dm)" and "distinct (map fst (donations_read st ngo))"
  shows "td = sum_list (map snd (donations_read st ngo))" and "dm = donations_read st ngo"
proof -
  from assms(1) obtain b js where "queryByString st (ngo_query ''donation'' ngo) = Inr b"
    "parsed_array b = Inr js" "donations_loop js 0 [] = Inr (td, dm)"
    by (auto simp: load_donations_def split: sum.splits)
  then have "donations_read st ngo = decoded donation_fields js"
    and "td = 0 + sum_list (map snd (decoded donation_fields js))"
    and "dm = fold (\<lambda>e m. map_set m (fst e) (snd e)) (decoded donation_fields js) []"
    using donations_loop_decoded [of js 0 "[]" td dm]
    by (simp_all add: donations_read_def query_results_def)
  then show "td = sum_list (map snd (donations_read st ngo))" and "dm = donations_read st ngo"
    using assms(2) fold_map_set_distinct [of "[]" "decoded donation_fields js"] by simp_all
qed

lemma load_spend_read:
  assumes "load_spend st ngo = Inr (ts, sm)"
  shows "ts = sum_list (map snd (allocations_read st ngo))"
    and "spent_for sm d = sum_list (map snd (filter (\<lambda>a. fst a = d) (allocations_read st ngo)))"
proof -
  from assms(1) obtain b js where "queryByString st (ngo_query ''spendAllocation'' ngo) = Inr b"
    "parsed_array b = Inr js" "spend_loop js 0 [] = Inr (ts, sm)"
    by (auto simp: load_spend_def split: sum.splits)
  then have "allocations_read st ngo = decoded allocation_fields js"
    and "ts = 0 + sum_list (map snd (decoded allocation_fields js))"
    and "\<forall>d. spent_for sm d = spent_for [] d
           + sum_list (map snd (filter (\<lambda>a. fst a = d) (decoded allocation_fields js)))"
    using spend_loop_decoded [of js 0 "[]" ts sm]
    by (simp_all add: allocations_read_def query_results_def)
  then show "ts = sum_list (map snd (allocations_read st ngo))"
    and "spent_for sm d = sum_list (map snd (filter (\<lambda>a. fst a = d) (allocations_read st ngo)))"
    by (simp_all add: spent_for_def)
qed





subsection \<open>Rejections of lines 162 and 173\<close>

lemma invalid_amount_rejected:
  assumes "\<And>a. map_of spend ''spendAmount'' = Some (JNum a) \<Longrightarrow> a = 0"
  shows "allocateSpend st (JObj spend) = (Inl InvalidSpendAmount, st)"
  using assms by (auto split: option.splits json.splits)

lemma missing_ngo_rejected:
  assumes "map_of spend ''spendAmount'' = Some (JNum a)" and "a \<noteq> 0"
    and "map_of spend ''spendId'' = Some sid" and "truthy sid"
    and "map_of spend ''ngoRegistrationNumber'' = Some (JStr ngo)"
    and "map_of (world st) (''ngo'' @ ngo) = None"
  shows "allocateSpend st (JObj spend) = (Inl (KeyDoesNotExist (''ngo'' @ ngo)), st)"
  using assms
  by (simp add: allocate_valid_def queryByKey_def getState_def bytes_empty_def)

subsection \<open>The books follow the writes\<close>

lemma allocated_to_allocate:
  "allocated_to d (writes (the_stub (allocate spend ngo i a s)))
     = allocated_to d (writes (the_stub s)) + (if i = d then a else 0)"
  by (simp add: allocated_to_def allocations_written_allocate)

lemma round_books:
  "allocated_to d (writes (the_stub (allocate_round spend ngo sh ds s)))
       - spent_for (donationSpendMap (allocate_round spend ngo sh ds s)) d
     = allocated_to d (writes (the_stub s)) - spent_for (donationSpendMap s) d"
proof (induction ds arbitrary: s)
  case Nil
  then show ?case by simp
next
  case (Cons e ds)
  obtain i a where e: "e = (i, a)" by (cases e)
  have "allocated_to d (writes (the_stub (allocate_round spend ngo sh ds (allocate spend ngo i x s))))
       - spent_for (donationSpendMap (allocate_round spend ngo sh ds (allocate spend ngo i x s))) d
     = allocated_to d (writes (the_stub s)) - spent_for (donationSpendMap s) d" for x
    using Cons.IH [of "allocate spend ngo i x s"]
    by (simp add: allocated_to_allocate allocate_fields spent_for_add_spend)
  then show ?case using Cons.IH [of s] by (simp add: e Let_def)
qed

lemma round_within_balance:
  assumes "0 < sh"
  shows "distinct (map fst ds) \<Longrightarrow>
     (\<forall>e \<in> set ds. spent_for (donationSpendMap (allocate_round spend ngo sh ds s)) (fst e)
          \<le> max (snd e) (spent_for (donationSpendMap s) (fst e)))
     \<and> (\<forall>d. d \<notin> fst ` set ds \<longrightarrow>
          spent_for (donationSpendMap (allocate_round spend ngo sh ds s)) d
            = spent_for (donationSpendMap s) d)"
proof (induction ds arbitrary: s)
  case Nil
  then show ?case by simp
next
  case (Cons e ds)
  obtain i a where e: "e = (i, a)" by (cases e)
  have i: "i \<notin> fst ` set ds" and dist: "distinct (map fst ds)"
    using Cons.prems by (auto simp: e)
  let ?av = "a - spent_for (donationSpendMap s) i"
  have step: "(\<forall>e \<in> set ((i, a) # ds).
          spent_for (donationSpendMap (allocate_round spend ngo sh ds s1)) (fst e)
          \<le> max (snd e) (spent_for (donationSpendMap s) (fst e)))
     \<and> (\<forall>d. d \<notin> fst ` set ((i, a) # ds) \<longrightarrow>
          spent_for (donationSpendMap (allocate_round spend ngo sh ds s1)) d
            = spent_for (donationSpendMap s) d)"
    if s1: "spent_for (donationSpendMap s1) i \<le> max a (spent_for (donationSpendMap s) i)"
      "\<And>d. d \<noteq> i \<Longrightarrow> spent_for (donationSpendMap s1) d = spent_for (donationSpendMap s) d"
    for s1
  proof -
    note IH = Cons.IH [OF dist, of s1]
    have "spent_for (donationSpendMap (allocate_round spend ngo sh ds s1)) i
        = spent_for (donationSpendMap s1) i"
      using IH i by blast
    moreover have "spent_for (donationSpendMap (allocate_round spend ngo sh ds s1)) (fst x)
        \<le> max (snd x) (spent_for (donationSpendMap s) (fst x))" if "x \<in> set ds" for x
    proof -
      have "fst x \<noteq> i" using that i by force
      then show ?thesis using IH that s1(2) by auto
    qed
    moreover have "spent_for (donationSpendMap (allocate_round spend ngo sh ds s1)) d
        = spent_for (donationSpendMap s) d" if "d \<noteq> i" "d \<notin> fst ` set ds" for d
      using IH that s1(2) by auto
    ultimately show ?thesis using s1(1) by auto
  qed
  show ?case
  proof (cases "sh \<le> ?av")
    case True
    then show ?thesis
      using step [of "allocate spend ngo i sh s"]
      by (simp add: e allocate_fields spent_for_add_spend)
  next
    case False
    show ?thesis
    proof (cases "0 < ?av")
      case True
      then show ?thesis
        using False step [of "allocate spend ngo i ?av s"]
        by (simp add: e allocate_fields spent_for_add_spend)
    next
      case nofunds: False
      then show ?thesis using False step [of s] by (simp add: e)
    qed
  qed
qed

lemma loop_within_balance:
  "distinct (map fst dm) \<Longrightarrow> (d, A) \<in> set dm \<Longrightarrow>
     spent_for (donationSpendMap (snd (allocate_loop spend ngo dm s))) d
       \<le> max A (spent_for (donationSpendMap s) d)"
proof (induction spend ngo dm s rule: allocate_loop.induct)
  case (1 spend ngo dm s)
  show ?case
  proof (cases "spendAmount s \<le> 0 \<or> count_available dm (donationSpendMap s) = 0")
    case True
    then show ?thesis by (auto simp: allocate_loop.simps [of spend ngo dm s])
  next
    case False
    let ?sh = "spendAmount s / of_nat (count_available dm (donationSpendMap s))"
    let ?s1 = "allocate_round spend ngo ?sh dm s"
    have sh: "0 < ?sh" using False by simp
    have unfold: "allocate_loop spend ngo dm s = allocate_loop spend ngo dm ?s1"
      using False by (simp add: allocate_loop.simps [of spend ngo dm s] Let_def)
    have "spent_for (donationSpendMap (snd (allocate_loop spend ngo dm ?s1))) d
        \<le> max A (spent_for (donationSpendMap ?s1) d)"
      using False "1.prems" by (intro "1.IH" [OF _ refl _ _ refl]) auto
    moreover have "spent_for (donationSpendMap ?s1) d \<le> max A (spent_for (donationSpendMap s) d)"
      using round_within_balance [OF sh "1.prems"(1), of spend ngo s] "1.prems"(2) by force
    ultimately show ?thesis unfolding unfold by linarith
  qed
qed

lemma loop_books:
  "allocated_to d (writes (the_stub (snd (allocate_loop spend ngo dm s))))
       - spent_for (donationSpendMap (snd (allocate_loop spend ngo dm s))) d
     = allocated_to d (writes (the_stub s)) - spent_for (donationSpendMap s) d"
proof (induction spend ngo dm s rule: allocate_loop.induct)
  case (1 spend ngo dm s)
  show ?case
  proof (cases "spendAmount s \<le> 0 \<or> count_available dm (donationSpendMap s) = 0")
    case True
    then show ?thesis by (auto simp: allocate_loop.simps [of spend ngo dm s])
  next
    case False
    let ?sh = "spendAmount s / of_nat (count_available dm (donationSpendMap s))"
    let ?s1 = "allocate_round spend ngo ?sh dm s"
    have unfold: "allocate_loop spend ngo dm s = allocate_loop spend ngo dm ?s1"
      using False by (simp add: allocate_loop.simps [of spend ngo dm s] Let_def)
    have "allocated_to d (writes (the_stub (snd (allocate_loop spend ngo dm ?s1))))
       - spent_for (donationSpendMap (snd (allocate_loop spend ngo dm ?s1))) d
     = allocated_to d (writes (the_stub ?s1)) - spent_for (donationSpendMap ?s1) d"
      using False by (intro "1.IH" [OF _ refl _ _ refl]) auto
    then show ?thesis unfolding unfold using round_books [of d spend ngo ?sh dm s] by simp
  qed
qed

lemma allocated_to_append:
  "allocated_to d (xs @ ys) = allocated_to d xs + allocated_to d ys"
  by (simp add: allocated_to_def allocations_written_append)

lemma allocated_to_spend_doc:
  "allocated_to d [(key, stringify (JObj (map_set obj ''docType'' (JStr ''spend''))))] = 0"
  by (simp add: allocated_to_def allocations_written_def List.map_filter_def
      spend_doc_not_allocation)

lemma record_and_allocate_within_balance:
  assumes "distinct (map fst dm)" and "(d, A) \<in> set dm"
  shows "spent_for sm d + allocated_to d (drop (length (writes st))
           (writes (snd (record_and_allocate st obj ngo spendId amount dm sm))))
         \<le> max A (spent_for sm d)"
proof -
  let ?spend = "map_set obj ''docType'' (JStr ''spend'')"
  let ?doc = "stringify (JObj ?spend)"
  let ?s0 = "\<lparr>spendAmount = amount, donationSpendMap = sm, recordCounter = 0,
              the_stub = putState st (''spend'' @ spendId) ?doc\<rparr>"
  let ?r = "allocate_loop ?spend ngo dm ?s0"
  have res: "snd (record_and_allocate st obj ngo spendId amount dm sm) = the_stub (snd ?r)"
    by (simp add: record_and_allocate_def Let_def)
  have w0: "writes (the_stub ?s0) = writes st @ [(''spend'' @ spendId, ?doc)]"
    by (simp add: putState_def)
  obtain ws where ws: "writes (the_stub (snd ?r)) = writes (the_stub ?s0) @ ws"
    using loop_stub [of ?spend ngo dm ?s0] by blast
  have "allocated_to d (writes (the_stub (snd ?r))) - spent_for (donationSpendMap (snd ?r)) d
      = allocated_to d (writes (the_stub ?s0)) - spent_for (donationSpendMap ?s0) d"
    by (rule loop_books)
  then have new: "allocated_to d ws = spent_for (donationSpendMap (snd ?r)) d - spent_for sm d"
    unfolding ws by (simp add: allocated_to_append)
  have "spent_for (donationSpendMap (snd ?r)) d \<le> max A (spent_for (donationSpendMap ?s0) d)"
    using assms by (rule loop_within_balance)
  then have "spent_for sm d + allocated_to d ws \<le> max A (spent_for sm d)"
    using new by simp
  moreover have "allocated_to d (drop (length (writes st)) (writes (the_stub (snd ?r))))
      = allocated_to d ws"
    unfolding ws w0
    using allocated_to_append [of d "[(''spend'' @ spendId, ?doc)]" ws]
    by (simp add: allocated_to_spend_doc)
  ultimately show ?thesis unfolding res by simp
qed

text \<open>
  Within one call the loop stays inside the balance it has computed: for a donation of
  the NGO, what the ledger already shows as allocated to it, plus what this call writes,
  does not exceed the donation's amount (unless the ledger showed more than that before,
  and then the call writes nothing against it).
\<close>

lemma allocateSpend_within_balance:
  assumes "map_of spend ''ngoRegistrationNumber'' = Some (JStr ngo)"
    and "distinct (map fst (donations_read st ngo))"
    and "(d, A) \<in> set (donations_read st ngo)"
  shows "sum_list (map snd (filter (\<lambda>a. fst a = d) (allocations_read st ngo)))
         + allocated_to d (drop (length (writes st)) (writes (snd (allocateSpend st (JObj spend)))))
         \<le> max A (sum_list (map snd (filter (\<lambda>a. fst a = d) (allocations_read st ngo))))"
  using allocateSpend_result [of st "JObj spend"]
proof (elim disjE exE conjE)
  fix e assume "allocateSpend st (JObj spend) = (Inl e, st)"
  then show ?thesis by (simp add: allocated_to_def allocations_written_def List.map_filter_def)
next
  fix obj amount ngo' spendId totalDonations donationMap totalSpend spendMap
  assume o: "JObj spend = JObj obj"
    and n: "map_of obj ''ngoRegistrationNumber'' = Some (JStr ngo')"
    and ld: "load_donations st ngo' = Inr (totalDonations, donationMap)"
    and ls: "load_spend st ngo' = Inr (totalSpend, spendMap)"
    and r: "allocateSpend st (JObj spend)
        = record_and_allocate st obj ngo' spendId amount donationMap spendMap"
  have ngo: "ngo' = ngo" using o n assms(1) by simp
  have dm: "donationMap = donations_read st ngo"
    using load_donations_read(2) [OF ld [unfolded ngo] assms(2)] .
  have sm: "spent_for spendMap d
      = sum_list (map snd (filter (\<lambda>a. fst a = d) (allocations_read st ngo)))"
    using load_spend_read(2) [OF ls [unfolded ngo]] .
  show ?thesis
    unfolding r
    using record_and_allocate_within_balance [of donationMap d A spendMap st obj ngo' spendId amount]
      assms(2,3)
    by (simp add: dm sm)
qed

section \<open>Point lookup\<close>

text \<open>
  C9, as stated: a point lookup of an absent key signals absence without throwing. It
  fails: on the empty ledger \<open>queryByKey\<close> throws for the key \<open>ngoN1\<close> (line 38).
\<close>

theorem queryByKey_absent_throws:
  "queryByKey empty_ledger ''ngoN1'' = Inl (KeyDoesNotExist ''ngoN1'')"
  by (simp add: queryByKey_def getState_def bytes_empty_def empty_ledger_def)

text \<open>
  C9, amended: \<open>getState\<close> is total and reads an absent key as the empty buffer;
  \<open>queryByKey\<close> returns the stored payload when the key holds a non-empty one, and
  throws its does-not-exist error when the key is absent or holds the empty buffer.
\<close>

theorem queryByKey_result:
  "queryByKey st key =
     (case map_of (world st) key of
        None \<Rightarrow> Inl (KeyDoesNotExist key)
      | Some b \<Rightarrow> if b = Raw [] then Inl (KeyDoesNotExist key) else Inr b)"
  by (simp add: queryByKey_def getState_def bytes_empty_def split: option.split)

section \<open>The trace of section 8, scenario 3\<close>

text \<open>
  C6: NGO \<open>N1\<close> has the donations \<open>D1\<close> of 30 and \<open>D2\<close> of 70 and no allocations.
  A spend of 80 succeeds; the allocations written against \<open>D1\<close> add up to 30, those
  against \<open>D2\<close> to 50, and all of them to 80.
\<close>

theorem trace_30_70_spend_80:
  "fst (allocateSpend ledger_30_70 (spend_request ''S3'' 80 ''N1'')) = Inr ()
   \<and> allocated_to ''D1'' (writes (snd (allocateSpend ledger_30_70 (spend_request ''S3'' 80 ''N1'')))) = 30
   \<and> allocated_to ''D2'' (writes (snd (allocateSpend ledger_30_70 (spend_request ''S3'' 80 ''N1'')))) = 50
   \<and> total_allocated (writes (snd (allocateSpend ledger_30_70 (spend_request ''S3'' 80 ''N1'')))) = 80"
  by code_simp

section \<open>Conservation\<close>



section \<open>Rejection\<close>



section \<open>Validation of the amount\<close>

text \<open>
  C5 says that a spend whose amount is not positive is rejected. On the ledger with the
  NGO \<open>N1\<close>, a spend of \<open>- 5\<close> passes line 162, passes the test of line 240, is
  written as a spend record and leaves the loop at once.
\<close>

theorem negative_spend_accepted:
  "fst (allocateSpend ledger_30_70 (spend_request ''S5'' (- 5) ''N1'')) = Inr ()
   \<and> map fst (writes (snd (allocateSpend ledger_30_70 (spend_request ''S5'' (- 5) ''N1'')))) = [''spendS5'']"
  by code_simp

section \<open>The spend record is written twice\<close>

text \<open>
  C10: a \<open>createSpend\<close> that succeeds has written the spend document, with \<open>docType\<close>
  set to \<open>spend\<close>, under the key \<open>spend\<close> followed by the spend id twice: as the first
  write of \<open>allocateSpend\<close>, before the allocations, and as its own last write. Both
  writes carry the same payload, so the committed state holds at that key what a single
  write of the document would leave there.
\<close>

theorem createSpend_writes_spend_twice:
  assumes "fst (createSpend st args) = Inr ()"
  shows "\<exists>obj spendId allocations.
      parse args = Some (JObj obj) \<and> map_of obj ''spendId'' = Some (JStr spendId)
    \<and> writes (snd (createSpend st args))
        = writes st
          @ (''spend'' @ spendId, stringify (JObj (map_set obj ''docType'' (JStr ''spend''))))
          # allocations
          @ [(''spend'' @ spendId, stringify (JObj (map_set obj ''docType'' (JStr ''spend''))))]
    \<and> map_of (commit (snd (createSpend st args))) (''spend'' @ spendId)
        = Some (stringify (JObj (map_set obj ''docType'' (JStr ''spend''))))
    \<and> map_of (commit (putState st (''spend'' @ spendId)
          (stringify (JObj (map_set obj ''docType'' (JStr ''spend'')))))) (''spend'' @ spendId)
        = Some (stringify (JObj (map_set obj ''docType'' (JStr ''spend''))))"
proof -
  from assms obtain obj where obj: "parse args = Some (JObj obj)"
    by (auto simp: createSpend_def split: option.splits json.splits)
  from assms obj obtain spendId ngo where
    ids: "map_of obj ''spendId'' = Some (JStr spendId)"
         "map_of obj ''ngoRegistrationNumber'' = Some (JStr ngo)"
    by (auto simp: createSpend_def split: option.splits json.splits)
  let ?json = "map_set obj ''docType'' (JStr ''spend'')"
  let ?key = "''spend'' @ spendId"
  let ?doc = "stringify (JObj ?json)"
  let ?a = "allocateSpend st (JObj ?json)"
  have a_ok: "fst ?a = Inr ()"
    using assms obj ids
    by (auto simp: createSpend_def Let_def split: if_splits prod.splits sum.splits)
  have res: "snd (createSpend st args) = putState (snd ?a) ?key ?doc"
    using assms obj ids a_ok
    by (auto simp: createSpend_def Let_def map_set_idem split: if_splits prod.splits sum.splits)
  have sid: "map_of ?json ''spendId'' = Some (JStr spendId)"
    by (simp add: ids map_of_map_set)
  from allocateSpend_result [of st "JObj ?json"] a_ok
  obtain amount ngo' spendId' dm sm where
    "map_of ?json ''spendId'' = Some (JStr spendId')"
    "allocateSpend st (JObj ?json) = record_and_allocate st ?json ngo' spendId' amount dm sm"
    by auto
  then have eq: "?a = record_and_allocate st ?json ngo' spendId amount dm sm"
    using sid by simp
  obtain allocations where
    "writes (snd (record_and_allocate st ?json ngo' spendId amount dm sm))
       = writes st @ (?key, stringify (JObj (map_set ?json ''docType'' (JStr ''spend''))))
           # allocations"
    using record_and_allocate_writes [of st ?json ngo' spendId amount dm sm] by blast
  then have w: "writes (snd ?a) = writes st @ (?key, ?doc) # allocations"
    unfolding eq map_set_idem .
  have "writes (snd (createSpend st args)) = writes st @ (?key, ?doc) # allocations @ [(?key, ?doc)]"
    unfolding res by (simp add: putState_def w del: allocateSpend.simps)
  moreover have "map_of (commit (snd (createSpend st args))) ?key = Some ?doc"
    unfolding res by (simp add: commit_def putState_def)
  moreover have "map_of (commit (putState st ?key ?doc)) ?key = Some ?doc"
    by (simp add: commit_def putState_def)
  ultimately show ?thesis using obj ids by blast
qed

theorem createSpend_writes_spend_twice_witness:
  "fst (createSpend ledger_30_70 (Json (spend_request ''S3'' 80 ''N1''))) = Inr ()
   \<and> (\<exists>obj spendId allocations.
      parse (Json (spend_request ''S3'' 80 ''N1'')) = Some (JObj obj)
    \<and> map_of obj ''spendId'' = Some (JStr spendId)
    \<and> writes (snd (createSpend ledger_30_70 (Json (spend_request ''S3'' 80 ''N1''))))
        = writes ledger_30_70
          @ (''spend'' @ spendId, stringify (JObj (map_set obj ''docType'' (JStr ''spend''))))
          # allocations
          @ [(''spend'' @ spendId, stringify (JObj (map_set obj ''docType'' (JStr ''spend''))))]
    \<and> map_of (commit (snd (createSpend ledger_30_70 (Json (spend_request ''S3'' 80 ''N1'')))))
          (''spend'' @ spendId)
        = Some (stringify (JObj (map_set obj ''docType'' (JStr ''spend''))))
    \<and> map_of (commit (putState ledger_30_70 (''spend'' @ spendId)
          (stringify (JObj (map_set obj ''docType'' (JStr ''spend'')))))) (''spend'' @ spendId)
        = Some (stringify (JObj (map_set obj ''docType'' (JStr ''spend'')))))"
proof -
  have ok: "fst (createSpend ledger_30_70 (Json (spend_request ''S3'' 80 ''N1''))) = Inr ()"
    by code_simp
  show ?thesis using ok createSpend_writes_spend_twice [OF ok] by blast
qed

section \<open>Determinism\<close>

text \<open>
  C2: two executions of \<open>allocateSpend\<close> with the same transaction identifier and
  the same spend request, on ledgers that agree on what the function reads (the NGO
  records and the scans of the donation and spendAllocation ranges), end with the same
  outcome and have issued the same writes: same keys, same payloads, same order. After
  the spend record, the \<open>i\<close>-th allocation written has the id made of the transaction
  identifier, a hyphen and \<open>i\<close>, counting from 0, and the key \<open>spendAllocation\<close>
  followed by that id.
\<close>

theorem allocateSpend_deterministic:
  assumes "txid st1 = txid st2" and "writes st1 = writes st2" and "same_reads st1 st2"
  shows "fst (allocateSpend st1 spend) = fst (allocateSpend st2 spend)
       \<and> writes (snd (allocateSpend st1 spend)) = writes (snd (allocateSpend st2 spend))
       \<and> map key_and_id (drop (Suc (length (writes st1))) (writes (snd (allocateSpend st1 spend))))
           = expected_ids (txid st1) 0
               (length (writes (snd (allocateSpend st1 spend))) - Suc (length (writes st1)))"
proof -
  have same: "fst (allocateSpend st1 spend) = fst (allocateSpend st2 spend)
       \<and> writes (snd (allocateSpend st1 spend)) = writes (snd (allocateSpend st2 spend))"
  proof (cases spend)
    case (JObj obj)
    show ?thesis
      using assms(2) same_run_allocate_valid [OF assms, of obj]
      by (auto simp: JObj split: option.splits json.splits)
  qed (simp_all add: assms(2))
  have ids: "map key_and_id (drop (Suc (length (writes st1))) (writes (snd (allocateSpend st1 spend))))
           = expected_ids (txid st1) 0
               (length (writes (snd (allocateSpend st1 spend))) - Suc (length (writes st1)))"
    using allocateSpend_result [of st1 spend]
  proof (elim disjE exE conjE)
    fix e assume "allocateSpend st1 spend = (Inl e, st1)"
    then show ?thesis by (simp add: expected_ids_def)
  next
    fix obj amount ngo spendId totalDonations donationMap totalSpend spendMap
    assume r: "allocateSpend st1 spend =
        record_and_allocate st1 obj ngo spendId amount donationMap spendMap"
    obtain ws where
      "writes (snd (record_and_allocate st1 obj ngo spendId amount donationMap spendMap))
         = writes st1 @ (''spend'' @ spendId,
             stringify (JObj (map_set obj ''docType'' (JStr ''spend'')))) # ws"
      "map key_and_id ws = expected_ids (txid st1) 0 (length ws)"
      using record_and_allocate_ids [of st1 obj ngo spendId amount donationMap spendMap] by blast
    then show ?thesis unfolding r by simp
  qed
  show ?thesis using same ids by blast
qed

theorem allocateSpend_deterministic_witness:
  "txid ledger_30_70 = txid ledger_30_70_more \<and> writes ledger_30_70 = writes ledger_30_70_more
   \<and> same_reads ledger_30_70 ledger_30_70_more
   \<and> fst (allocateSpend ledger_30_70 (spend_request ''S3'' 80 ''N1''))
       = fst (allocateSpend ledger_30_70_more (spend_request ''S3'' 80 ''N1''))
   \<and> writes (snd (allocateSpend ledger_30_70 (spend_request ''S3'' 80 ''N1'')))
       = writes (snd (allocateSpend ledger_30_70_more (spend_request ''S3'' 80 ''N1'')))
   \<and> map key_and_id (drop (Suc (length (writes ledger_30_70)))
         (writes (snd (allocateSpend ledger_30_70 (spend_request ''S3'' 80 ''N1'')))))
       = expected_ids (txid ledger_30_70) 0
           (length (writes (snd (allocateSpend ledger_30_70 (spend_request ''S3'' 80 ''N1''))))
              - Suc (length (writes ledger_30_70)))"
proof -
  have t: "txid ledger_30_70 = txid ledger_30_70_more"
    by (simp add: ledger_30_70_def ledger_30_70_more_def)
  have w: "writes ledger_30_70 = writes ledger_30_70_more"
    by (simp add: ledger_30_70_def ledger_30_70_more_def)
  show ?thesis
    using t w same_reads_ledgers
      allocateSpend_deterministic [OF t w same_reads_ledgers, of "spend_request ''S3'' 80 ''N1''"]
    by blast
qed

section \<open>Query filtering\<close>




section \<open>The failure inside the loop\<close>




section \<open>No over-allocation\<close>

text \<open>
  C3 says that after any sequence of successful calls the allocations against a donation
  add up to at most its amount. Two calls break it. The first spend has the id
  \<open>AllocationX\<close>, so its record is stored under the key \<open>spendAllocationX\<close>, inside the
  range that line 207 scans, and it carries the fields \<open>donationId\<close> and
  \<open>spendAllocationAmount\<close> of \<open>- 1000\<close>. The second call reads it as an allocation
  against \<open>D1\<close> and allocates 500 from a donation of 100: the SpendAllocation records
  against \<open>D1\<close> then add up to 501.
\<close>

theorem forged_record_over_allocates:
  "allocations_read ledger_100 ''N1'' = []
   \<and> fst (allocateSpend ledger_100 (forged_spend ''D1'' (- 1000))) = Inr ()
   \<and> fst (allocateSpend ledger_forged_D1 (spend_request ''S2'' 500 ''N1'')) = Inr ()
   \<and> donations_read ledger_forged_D1 ''N1'' = [(''D1'', 100)]
   \<and> allocated_to ''D1''
        (commit (snd (allocateSpend ledger_forged_D1 (spend_request ''S2'' 500 ''N1'')))) = 501"
  by code_simp

end
